theory Spec2Isabelle
  imports Complex_Main "HOL-Library.Char_ord" "HOL-Library.List_Lexorder"
    "HOL-Library.Code_Target_Nat"
begin

section \<open>Typed arrays and parse results\<close>

text \<open>
  The parsers hand pixel samples around as JavaScript typed arrays. A typed array is
  its element kind together with its elements; a store into a typed array converts the
  number to the element type by wrapping modulo the element width.
\<close>

datatype arrayKind = Uint8Array | Uint16Array | Int16Array

record typedArray =
  kind :: arrayKind
  elems :: "int list"

definition toElem :: "arrayKind \<Rightarrow> int \<Rightarrow> int" where
  "toElem k v =
     (case k of
        Uint8Array \<Rightarrow> v mod 256
      | Uint16Array \<Rightarrow> v mod 65536
      | Int16Array \<Rightarrow> (v + 32768) mod 65536 - 32768)"

text \<open>\<open>new K(n)\<close>: a zero-filled typed array of \<open>n\<close> elements.\<close>

definition newArray :: "arrayKind \<Rightarrow> nat \<Rightarrow> typedArray" where
  "newArray k n = \<lparr>kind = k, elems = replicate n 0\<rparr>"

text \<open>
  \<open>target.set(source)\<close>: copies the source into the front of the target, converting
  each element; it throws a RangeError (here \<open>None\<close>) when the source is longer
  than the target.
\<close>

definition arraySet :: "typedArray \<Rightarrow> typedArray \<Rightarrow> typedArray option" where
  "arraySet target source =
     (if length (elems source) > length (elems target) then None
      else Some (target\<lparr>elems :=
             map (toElem (kind target)) (elems source)
               @ drop (length (elems source)) (elems target)\<rparr>))"

text \<open>\<open>a.slice(0, n)\<close> keeps the element kind and the first \<open>n\<close> elements.\<close>

definition arraySlice0 :: "typedArray \<Rightarrow> nat \<Rightarrow> typedArray" where
  "arraySlice0 a n = a\<lparr>elems := take n (elems a)\<rparr>"

text \<open>
  What \<open>parseDicom\<close> returns for one file, as far as \<open>processDicomFolder\<close> reads it:
  the pixel buffer (\<open>null\<close> is \<open>None\<close>), the dimensions, and the metadata entry of tag
  00200013 (\<open>undefined\<close> is \<open>None\<close>).
\<close>

record dicomData =
  pixelData :: "typedArray option"
  rows :: nat
  columns :: nat
  instanceTag :: "int option"

text \<open>
  One entry of the file list: its name, the outcome of reading and parsing it, and its
  bytes. For \<open>parsed\<close>, \<open>None\<close> stands for an exception thrown by
  \<open>file.arrayBuffer()\<close> or \<open>parseDicom\<close>, which the per-file \<open>try/catch\<close> of
  \<open>processDicomFolder\<close> turns into a skipped file; for \<open>contents\<close>, \<open>None\<close> stands for
  \<open>file.arrayBuffer()\<close> failing. Only the last-resort pass of dicom-parser-robust.js
  reads the bytes themselves.
\<close>

record dicomFile =
  name :: string
  parsed :: "dicomData option"
  contents :: "nat list option"

record sliceRecord =
  data :: typedArray
  sliceRows :: nat
  sliceColumns :: nat
  instanceNumber :: "int option"
  fileName :: string

record volume =
  voxels :: "int list"
  dimensions :: "nat \<times> nat \<times> nat"

text \<open>
  The two errors \<open>processDicomFolder\<close> throws itself, and the RangeError the engine
  throws when a call is given more arguments than it accepts.
\<close>

datatype pipelineError = NoValidDicomFiles | NoValidDicomFilesAfterRecovery | SpreadRangeError

text \<open>
  What the program takes from the JavaScript engine it runs on, and the source does not
  fix: the greatest number of arguments a call accepts (a spread call with more throws a
  RangeError), the three-way comparison \<open>String.prototype.localeCompare\<close> makes in the
  host's collation, and the Number \<open>parseInt\<close> yields for a run of more than 15 decimal
  digits, which need not be the exact integer.
\<close>

record engine =
  argumentLimit :: nat
  localeCompare :: "string \<Rightarrow> string \<Rightarrow> int"
  longDigits :: "nat list \<Rightarrow> int"

section \<open>processDicomFolder (dicom-parser.js)\<close>

text \<open>\<open>x || 0\<close> on a metadata entry: \<open>undefined\<close> and \<open>0\<close> both give \<open>0\<close>.\<close>

definition orZero :: "int option \<Rightarrow> int" where
  "orZero v = (case v of None \<Rightarrow> 0 | Some n \<Rightarrow> if n = 0 then 0 else n)"

text \<open>
  The body of the per-file loop (lines 267--300): the slice record pushed for a parsed
  file, or \<open>None\<close> when the file is dropped.
\<close>

definition sliceOfFile :: "string \<Rightarrow> dicomData \<Rightarrow> sliceRecord option" where
  "sliceOfFile nm d =
     (case pixelData d of
        None \<Rightarrow> None
      | Some px \<Rightarrow>
          if length (elems px) > 0 then
            (let expectedPixels = rows d * columns d in
             if length (elems px) \<ge> expectedPixels then
               Some \<lparr>data = arraySlice0 px expectedPixels,
                     sliceRows = rows d, sliceColumns = columns d,
                     instanceNumber = Some (orZero (instanceTag d)), fileName = nm\<rparr>
             else if length (elems px) > 100 then
               (case arraySet (newArray Uint8Array expectedPixels) px of
                  None \<Rightarrow> None
                | Some paddedData \<Rightarrow>
                    Some \<lparr>data = paddedData,
                          sliceRows = rows d, sliceColumns = columns d,
                          instanceNumber = Some (orZero (instanceTag d)), fileName = nm\<rparr>)
             else None)
          else None)"

definition fileSlice :: "dicomFile \<Rightarrow> sliceRecord option" where
  "fileSlice f = (case parsed f of None \<Rightarrow> None | Some d \<Rightarrow> sliceOfFile (name f) d)"

text \<open>The loop over the files: \<open>slices.push\<close> in enumeration order.\<close>

fun collectSlices :: "dicomFile list \<Rightarrow> sliceRecord list \<Rightarrow> sliceRecord list" where
  "collectSlices [] slices = slices"
| "collectSlices (f # fs) slices =
     (case fileSlice f of
        None \<Rightarrow> collectSlices fs slices
      | Some s \<Rightarrow> collectSlices fs (slices @ [s]))"

text \<open>
  The comparator passed to \<open>slices.sort\<close> (lines 313--319); the comparison of the
  names is the engine's.
\<close>

definition compareSlices :: "engine \<Rightarrow> sliceRecord \<Rightarrow> sliceRecord \<Rightarrow> int" where
  "compareSlices eng a b =
     (if instanceNumber a \<noteq> None \<and> instanceNumber b \<noteq> None
      then orZero (instanceNumber a) - orZero (instanceNumber b)
      else localeCompare eng (fileName a) (fileName b))"

text \<open>
  \<open>Array.prototype.sort\<close> is a stable sort: an element moves in front of another only
  when the comparator says it is strictly smaller.
\<close>

fun insertBy :: "('a \<Rightarrow> 'a \<Rightarrow> int) \<Rightarrow> 'a \<Rightarrow> 'a list \<Rightarrow> 'a list" where
  "insertBy cmp x [] = [x]"
| "insertBy cmp x (y # ys) =
     (if cmp x y \<le> 0 then x # y # ys else y # insertBy cmp x ys)"

definition sortBy :: "('a \<Rightarrow> 'a \<Rightarrow> int) \<Rightarrow> 'a list \<Rightarrow> 'a list" where
  "sortBy cmp xs = foldr (insertBy cmp) xs []"

definition is16Bit :: "sliceRecord list \<Rightarrow> bool" where
  "is16Bit slices =
     list_ex (\<lambda>s. kind (data s) = Uint16Array \<or> kind (data s) = Int16Array) slices"

definition isSigned :: "sliceRecord list \<Rightarrow> bool" where
  "isSigned slices = list_ex (\<lambda>s. kind (data s) = Int16Array) slices"

definition volumeKind :: "sliceRecord list \<Rightarrow> arrayKind" where
  "volumeKind slices =
     (if is16Bit slices then (if isSigned slices then Int16Array else Uint16Array)
      else Uint8Array)"

text \<open>
  The fill loops (lines 346--353): slice \<open>z\<close> is copied to offset \<open>z * sliceSize\<close>, at
  most \<open>sliceSize\<close> samples of it. A typed-array store outside the array is ignored.
\<close>

definition storeAt :: "typedArray \<Rightarrow> nat \<Rightarrow> int \<Rightarrow> typedArray" where
  "storeAt a i v = (if i < length (elems a) then a\<lparr>elems := (elems a)[i := toElem (kind a) v]\<rparr> else a)"

definition fillSlice :: "nat \<Rightarrow> nat \<Rightarrow> typedArray \<Rightarrow> typedArray \<Rightarrow> typedArray" where
  "fillSlice sliceSize z sliceData volumeData =
     fold (\<lambda>i vol. storeAt vol (z * sliceSize + i) (elems sliceData ! i))
       [0 ..< min sliceSize (length (elems sliceData))] volumeData"

definition fillVolume :: "nat \<Rightarrow> sliceRecord list \<Rightarrow> typedArray \<Rightarrow> typedArray" where
  "fillVolume sliceSize slices volumeData =
     fold (\<lambda>z vol. fillSlice sliceSize z (data (slices ! z)) vol)
       [0 ..< length slices] volumeData"

text \<open>
  \<open>Math.round\<close> rounds halves up. The normalisation (lines 356--369) is computed on
  exact reals in place of IEEE doubles. Typed arrays are taken to be allocated
  whatever their size.
\<close>

definition mathRound :: "real \<Rightarrow> int" where
  "mathRound x = \<lfloor>x + 1 / 2\<rfloor>"

definition maxVal :: "int list \<Rightarrow> int" where
  "maxVal xs = fold max (tl xs) (hd xs)"

definition minVal :: "int list \<Rightarrow> int" where
  "minVal xs = fold min (tl xs) (hd xs)"

definition rangeOf :: "int list \<Rightarrow> int" where
  "rangeOf xs = (if maxVal xs - minVal xs = 0 then 1 else maxVal xs - minVal xs)"

definition normalizeVoxel :: "int \<Rightarrow> int \<Rightarrow> int \<Rightarrow> int" where
  "normalizeVoxel mn rng v =
     toElem Uint8Array (mathRound ((real_of_int (v - mn) / real_of_int rng) * 255))"

text \<open>The loop that fills \<open>normalizedVolume\<close> (lines 360--363).\<close>

definition normalizedVolume :: "int list \<Rightarrow> int list" where
  "normalizedVolume volumeData =
     (case volumeData of
        [] \<Rightarrow> []
      | _ \<Rightarrow> map (normalizeVoxel (minVal volumeData) (rangeOf volumeData)) volumeData)"

text \<open>
  \<open>Math.max(...Array.from(volumeData))\<close> and \<open>Math.min(...Array.from(volumeData))\<close>
  pass every element of the field as an argument of one call: with more elements than
  the engine accepts arguments, the first of them throws a RangeError, which nothing in
  \<open>processDicomFolder\<close> catches.
\<close>

definition normalizeVolume :: "engine \<Rightarrow> int list \<Rightarrow> pipelineError + int list" where
  "normalizeVolume eng volumeData =
     (if argumentLimit eng < length volumeData then Inl SpreadRangeError
      else Inr (normalizedVolume volumeData))"

text \<open>
  The field assembled from the ordered slices, before normalisation, in a typed array
  of the given kind.
\<close>

definition assembleInto :: "arrayKind \<Rightarrow> sliceRecord list \<Rightarrow> int list" where
  "assembleInto k ordered =
     (let rows = sliceRows (hd ordered); cols = sliceColumns (hd ordered);
          depth = length ordered; volumeSize = rows * cols * depth
      in elems (fillVolume (rows * cols) ordered (newArray k volumeSize)))"

definition assembledField :: "sliceRecord list \<Rightarrow> int list" where
  "assembledField ordered = assembleInto (volumeKind ordered) ordered"

definition orderedSlices :: "engine \<Rightarrow> dicomFile list \<Rightarrow> sliceRecord list" where
  "orderedSlices eng files = sortBy (compareSlices eng) (collectSlices files [])"

definition processDicomFolder :: "engine \<Rightarrow> dicomFile list \<Rightarrow> pipelineError + volume" where
  "processDicomFolder eng files =
     (let slices = collectSlices files [] in
      if length slices = 0 then Inl NoValidDicomFiles
      else
        (let ordered = sortBy (compareSlices eng) slices;
             rows = sliceRows (hd ordered); cols = sliceColumns (hd ordered);
             depth = length ordered;
             volumeData = assembledField ordered
         in if is16Bit ordered then
              (case normalizeVolume eng volumeData of
                 Inl e \<Rightarrow> Inl e
               | Inr normalized \<Rightarrow> Inr \<lparr>voxels = normalized, dimensions = (cols, rows, depth)\<rparr>)
            else Inr \<lparr>voxels = volumeData, dimensions = (cols, rows, depth)\<rparr>))"

section \<open>processDicomFolder (dicom-parser-robust.js)\<close>

text \<open>
  The first pass (lines 308--338) accepts a file as dicom-parser.js does, and records
  the number of slices pushed so far as the instance number.
\<close>

definition sliceOfFileRobust :: "nat \<Rightarrow> string \<Rightarrow> dicomData \<Rightarrow> sliceRecord option" where
  "sliceOfFileRobust n nm d =
     (case pixelData d of
        None \<Rightarrow> None
      | Some px \<Rightarrow>
          if length (elems px) > 0 then
            (let expectedPixels = rows d * columns d in
             if length (elems px) \<ge> expectedPixels then
               Some \<lparr>data = arraySlice0 px expectedPixels,
                     sliceRows = rows d, sliceColumns = columns d,
                     instanceNumber = Some (int n), fileName = nm\<rparr>
             else if length (elems px) > 100 then
               (case arraySet (newArray Uint8Array expectedPixels) px of
                  None \<Rightarrow> None
                | Some paddedData \<Rightarrow>
                    Some \<lparr>data = paddedData,
                          sliceRows = rows d, sliceColumns = columns d,
                          instanceNumber = Some (int n), fileName = nm\<rparr>)
             else None)
          else None)"

definition fileSliceRobust :: "nat \<Rightarrow> dicomFile \<Rightarrow> sliceRecord option" where
  "fileSliceRobust n f =
     (case parsed f of None \<Rightarrow> None | Some d \<Rightarrow> sliceOfFileRobust n (name f) d)"

fun collectSlicesRobust :: "dicomFile list \<Rightarrow> sliceRecord list \<Rightarrow> sliceRecord list" where
  "collectSlicesRobust [] slices = slices"
| "collectSlicesRobust (f # fs) slices =
     (case fileSliceRobust (length slices) f of
        None \<Rightarrow> collectSlicesRobust fs slices
      | Some s \<Rightarrow> collectSlicesRobust fs (slices @ [s]))"

text \<open>
  The last-resort pass (lines 347--386), run only when the first pass accepted nothing:
  a file at least as long as one of the common sizes is cut to the first such size.
  Each entry of \<open>commonDims\<close> is (w, h, pixels).
\<close>

definition commonDims :: "(nat \<times> nat \<times> nat) list" where
  "commonDims =
     [(512, 512, 512 * 512), (256, 256, 256 * 256), (1024, 1024, 1024 * 1024),
      (512, 256, 512 * 256)]"

definition lastResortSlice :: "nat \<Rightarrow> dicomFile \<Rightarrow> sliceRecord option" where
  "lastResortSlice n f =
     (case contents f of
        None \<Rightarrow> None
      | Some uint8Array \<Rightarrow>
          (case find (\<lambda>(w, h, pixels). length uint8Array \<ge> pixels) commonDims of
             None \<Rightarrow> None
           | Some (w, h, pixels) \<Rightarrow>
               Some \<lparr>data = \<lparr>kind = Uint8Array, elems = map int (take pixels uint8Array)\<rparr>,
                     sliceRows = h, sliceColumns = w,
                     instanceNumber = Some (int n), fileName = name f\<rparr>))"

fun lastResort :: "dicomFile list \<Rightarrow> sliceRecord list \<Rightarrow> sliceRecord list" where
  "lastResort [] slices = slices"
| "lastResort (f # fs) slices =
     (case lastResortSlice (length slices) f of
        None \<Rightarrow> lastResort fs slices
      | Some s \<Rightarrow> lastResort fs (slices @ [s]))"

definition recoveredSlices :: "dicomFile list \<Rightarrow> sliceRecord list" where
  "recoveredSlices files =
     (let slices = collectSlicesRobust files [] in
      if length slices = 0 then lastResort files slices else slices)"

definition compareSlicesRobust :: "sliceRecord \<Rightarrow> sliceRecord \<Rightarrow> int" where
  "compareSlicesRobust a b = orZero (instanceNumber a) - orZero (instanceNumber b)"

definition is16BitRobust :: "sliceRecord list \<Rightarrow> bool" where
  "is16BitRobust slices = list_ex (\<lambda>s. kind (data s) = Uint16Array) slices"

definition orderedSlicesRobust :: "dicomFile list \<Rightarrow> sliceRecord list" where
  "orderedSlicesRobust files = sortBy compareSlicesRobust (recoveredSlices files)"

definition assembledFieldRobust :: "sliceRecord list \<Rightarrow> int list" where
  "assembledFieldRobust ordered =
     assembleInto (if is16BitRobust ordered then Uint16Array else Uint8Array) ordered"

definition processDicomFolderRobust :: "engine \<Rightarrow> dicomFile list \<Rightarrow> pipelineError + volume" where
  "processDicomFolderRobust eng files =
     (let slices = recoveredSlices files in
      if length slices = 0 then Inl NoValidDicomFilesAfterRecovery
      else
        (let ordered = sortBy compareSlicesRobust slices;
             rows = sliceRows (hd ordered); cols = sliceColumns (hd ordered);
             depth = length ordered;
             volumeData = assembledFieldRobust ordered
         in if is16BitRobust ordered then
              (case normalizeVolume eng volumeData of
                 Inl e \<Rightarrow> Inl e
               | Inr normalized \<Rightarrow> Inr \<lparr>voxels = normalized, dimensions = (cols, rows, depth)\<rparr>)
            else Inr \<lparr>voxels = volumeData, dimensions = (cols, rows, depth)\<rparr>))"

section \<open>VolumeRenderer.loadVolume: packing the atlas\<close>

text \<open>
  \<open>loadVolume\<close> has two branches. When the data length differs from
  width * height * depth it tries to repair the dimensions (lines 402--525); that branch
  is outside the model, which answers \<open>None\<close> there. Otherwise it runs the layout and
  fill loops headed "Original logic for when dimensions match" (lines 527--593), which
  are modelled below. \<open>Math.sqrt\<close>, the division and \<open>Math.ceil\<close> are taken on exact
  reals.
\<close>

definition slicesPerRowOf :: "nat \<Rightarrow> nat" where
  "slicesPerRowOf depth = nat \<lceil>sqrt (real depth)\<rceil>"

definition atlasRowsOf :: "nat \<Rightarrow> nat" where
  "atlasRowsOf depth = nat \<lceil>real depth / real (slicesPerRowOf depth)\<rceil>"

text \<open>
  \<open>Math.max(0, Math.min(255, Math.round(v)))\<close> on an integer sample; the result is
  stored into a \<open>Uint8Array\<close> unchanged.
\<close>

definition clampByte :: "int \<Rightarrow> int" where
  "clampByte v = max 0 (min 255 v)"

text \<open>The body of the innermost loop (lines 547--555).\<close>

definition storeTexel ::
  "nat \<Rightarrow> nat \<Rightarrow> nat \<Rightarrow> nat \<Rightarrow> int list \<Rightarrow> nat \<Rightarrow> nat \<Rightarrow> nat \<Rightarrow> int list \<Rightarrow> int list" where
  "storeTexel width height slicesPerRow texWidth volumeData z y x textureData =
     (let sliceRow = z div slicesPerRow;
          sliceCol = z mod slicesPerRow;
          volumeIdx = z * width * height + y * width + x;
          texX = sliceCol * width + x;
          texY = sliceRow * height + y;
          texIdx = texY * texWidth + texX
      in if volumeIdx < length volumeData \<and> texIdx < length textureData
         then textureData[texIdx := clampByte (volumeData ! volumeIdx)]
         else textureData)"

definition fillTexture ::
  "nat \<Rightarrow> nat \<Rightarrow> nat \<Rightarrow> nat \<Rightarrow> nat \<Rightarrow> int list \<Rightarrow> int list \<Rightarrow> int list" where
  "fillTexture width height depth slicesPerRow texWidth volumeData textureData =
     fold (\<lambda>z t.
        fold (\<lambda>y t.
           fold (\<lambda>x t. storeTexel width height slicesPerRow texWidth volumeData z y x t)
             [0 ..< width] t)
          [0 ..< height] t)
       [0 ..< depth] textureData"

record textureLayout =
  layoutWidth :: nat
  layoutHeight :: nat
  layoutSlices :: nat
  layoutVolumeSize :: "nat \<times> nat \<times> nat"

definition packAtlas :: "volume \<Rightarrow> int list \<times> textureLayout" where
  "packAtlas volumeData =
     (case dimensions volumeData of (width, height, depth) \<Rightarrow>
        let slicesPerRow = slicesPerRowOf depth;
            rows = atlasRowsOf depth;
            texWidth = slicesPerRow * width;
            texHeight = rows * height;
            textureData = fillTexture width height depth slicesPerRow texWidth
                            (voxels volumeData) (replicate (texWidth * texHeight) 0)
        in (textureData,
            \<lparr>layoutWidth = texWidth, layoutHeight = texHeight, layoutSlices = depth,
             layoutVolumeSize = (width, height, depth)\<rparr>))"

definition loadVolume :: "volume \<Rightarrow> (int list \<times> textureLayout) option" where
  "loadVolume volumeData =
     (case dimensions volumeData of (width, height, depth) \<Rightarrow>
        if length (voxels volumeData) \<noteq> width * height * depth then None
        else Some (packAtlas volumeData))"

section \<open>parseDicom: the tag-stream decoder\<close>

text \<open>
  A buffer is its bytes, each below 256. A \<open>DataView\<close> read outside the buffer throws
  a RangeError, which is \<open>None\<close> here; multi-byte reads are little-endian.
\<close>

type_synonym buffer = "nat list"

datatype jsError = RangeError

definition getUint8 :: "buffer \<Rightarrow> nat \<Rightarrow> nat option" where
  "getUint8 buf i = (if i + 1 \<le> length buf then Some (buf ! i) else None)"

definition getUint16 :: "buffer \<Rightarrow> nat \<Rightarrow> nat option" where
  "getUint16 buf i =
     (if i + 2 \<le> length buf then Some (buf ! i + 256 * buf ! (i + 1)) else None)"

definition getUint32 :: "buffer \<Rightarrow> nat \<Rightarrow> nat option" where
  "getUint32 buf i =
     (if i + 4 \<le> length buf
      then Some (buf ! i + 256 * buf ! (i + 1) + 65536 * buf ! (i + 2)
                   + 16777216 * buf ! (i + 3))
      else None)"

text \<open>\<open>arrayBuffer.slice(a, b)\<close>, clamped to the buffer.\<close>

definition bufferSlice :: "buffer \<Rightarrow> nat \<Rightarrow> nat \<Rightarrow> buffer" where
  "bufferSlice buf a b = take (b - a) (drop a buf)"

text \<open>
  Typed arrays over a byte buffer. The 16-bit constructors throw a RangeError when the
  byte length is odd; elements are read in little-endian order.
\<close>

definition newUint8Array :: "buffer \<Rightarrow> typedArray" where
  "newUint8Array bytes = \<lparr>kind = Uint8Array, elems = map int bytes\<rparr>"

fun words16 :: "buffer \<Rightarrow> int list" where
  "words16 (lo # hi # rest) = int (lo + 256 * hi) # words16 rest"
| "words16 _ = []"

definition newUint16Array :: "buffer \<Rightarrow> typedArray option" where
  "newUint16Array bytes =
     (if length bytes mod 2 = 1 then None
      else Some \<lparr>kind = Uint16Array, elems = words16 bytes\<rparr>)"

definition newInt16Array :: "buffer \<Rightarrow> typedArray option" where
  "newInt16Array bytes =
     (if length bytes mod 2 = 1 then None
      else Some \<lparr>kind = Int16Array, elems = map (toElem Int16Array) (words16 bytes)\<rparr>)"

text \<open>
  \<open>n.toString(16).padStart(4, '0')\<close> for a 16-bit value: four lower-case hexadecimal
  digits.
\<close>

definition hexDigit :: "nat \<Rightarrow> char" where
  "hexDigit d = ''0123456789abcdef'' ! d"

definition hex4 :: "nat \<Rightarrow> string" where
  "hex4 n = [hexDigit (n div 4096 mod 16), hexDigit (n div 256 mod 16),
             hexDigit (n div 16 mod 16), hexDigit (n mod 16)]"

definition fromCharCode :: "nat \<Rightarrow> char" where
  "fromCharCode c = char_of c"

definition longVRs :: "string list" where
  "longVRs = [''OB'', ''OW'', ''OF'', ''SQ'', ''UT'', ''UN'']"

text \<open>
  \<open>parseInt(str, 10)\<close> on the character codes of a string made of bytes: leading white
  space, an optional sign, then decimal digits; \<open>None\<close> is NaN. A run of at most 15
  digits is a Number exactly; the value of a longer run is the engine's.
\<close>

definition isWhiteSpace :: "nat \<Rightarrow> bool" where
  "isWhiteSpace c = (c \<in> {9, 10, 11, 12, 13, 32, 160})"

definition isDigit :: "nat \<Rightarrow> bool" where
  "isDigit c = (48 \<le> c \<and> c \<le> 57)"

definition parseInt10 :: "engine \<Rightarrow> nat list \<Rightarrow> int option" where
  "parseInt10 eng str =
     (let s = dropWhile isWhiteSpace str;
          negative = (s \<noteq> [] \<and> hd s = 45);
          s1 = (if s \<noteq> [] \<and> (hd s = 45 \<or> hd s = 43) then tl s else s);
          digits = takeWhile isDigit s1
      in if digits = [] then None
         else Some ((if negative then - 1 else 1)
                      * (if length digits \<le> 15
                         then foldl (\<lambda>a c. 10 * a + int (c - 48)) 0 digits
                         else longDigits eng digits)))"

text \<open>
  The decoder state: the fields of the returned object that \<open>processDicomFolder\<close> reads,
  the read position, and the two fields that steer the pixel-data branch. The metadata
  entries of window centre and window width are not tracked: their branches only read
  bytes inside the value, after the bounds check.
\<close>

record parseState = dicomData +
  offset :: nat
  bitsAllocated :: nat
  pixelRepresentation :: nat

definition initialState :: "nat \<Rightarrow> parseState" where
  "initialState off =
     \<lparr>pixelData = None, rows = 0, columns = 0, instanceTag = None,
      offset = off, bitsAllocated = 8, pixelRepresentation = 0\<rparr>"

text \<open>
  Lines 34--50: the start offset, after the preamble and the magic word when present.
\<close>

definition initialOffset :: "buffer \<Rightarrow> nat option" where
  "initialOffset buf =
     (if length buf > 132 then
        (case (getUint8 buf 128, getUint8 buf 129, getUint8 buf 130, getUint8 buf 131) of
           (Some a, Some b, Some c, Some d) \<Rightarrow>
             Some (if [fromCharCode a, fromCharCode b, fromCharCode c, fromCharCode d] = ''DICM''
                   then 132 else 0)
         | _ \<Rightarrow> None)
      else Some 0)"

text \<open>
  Lines 62--108 of dicom-parser.js: the tag, the VR and the length of the element at
  \<open>offset\<close>. \<open>HeaderThrows\<close> carries the value of \<open>offset\<close> at the throw.
\<close>

datatype headerResult =
    HeaderThrows nat
  | HeaderBreak
  | Header string string nat nat

definition readHeader :: "buffer \<Rightarrow> nat \<Rightarrow> headerResult" where
  "readHeader buf offset0 =
     (case (getUint16 buf offset0, getUint16 buf (offset0 + 2),
            getUint8 buf (offset0 + 4), getUint8 buf (offset0 + 5)) of
        (Some grp, Some elt, Some c0, Some c1) \<Rightarrow>
          (let tag = hex4 grp @ hex4 elt;
               vr = [fromCharCode c0, fromCharCode c1];
               offset1 = offset0 + 6
           in if vr \<in> set longVRs then
                (let offset2 =
                       (if offset1 + 4 \<le> length buf \<and> getUint32 buf offset1 \<noteq> Some 0
                        then offset1 + 4 else offset1)
                 in if offset2 + 4 \<le> length buf then
                      (case getUint32 buf offset2 of
                         Some len \<Rightarrow> Header tag vr len (offset2 + 4)
                       | None \<Rightarrow> HeaderThrows offset2)
                    else HeaderBreak)
              else if vr \<in> set longVRs then
                (let offset2 = offset1 + 2
                 in if offset2 + 4 \<le> length buf then
                      (case getUint32 buf offset2 of
                         Some len \<Rightarrow> Header tag vr len (offset2 + 4)
                       | None \<Rightarrow> HeaderThrows offset2)
                    else HeaderBreak)
              else if offset1 + 2 \<le> length buf then
                (case getUint16 buf offset1 of
                   Some len \<Rightarrow> Header tag vr len (offset1 + 2)
                 | None \<Rightarrow> HeaderThrows offset1)
              else HeaderBreak)
      | _ \<Rightarrow> HeaderThrows offset0)"

text \<open>
  Lines 62--117 of dicom-parser-fixed.js: as above, with a bounds check after the tag
  and a break when the four bytes after a long VR are missing.
\<close>

definition readHeaderFixed :: "buffer \<Rightarrow> nat \<Rightarrow> headerResult" where
  "readHeaderFixed buf offset0 =
     (case (getUint16 buf offset0, getUint16 buf (offset0 + 2)) of
        (Some grp, Some elt) \<Rightarrow>
          if offset0 + 8 > length buf then HeaderBreak
          else
            (case (getUint8 buf (offset0 + 4), getUint8 buf (offset0 + 5)) of
               (Some c0, Some c1) \<Rightarrow>
                 (let tag = hex4 grp @ hex4 elt;
                      vr = [fromCharCode c0, fromCharCode c1];
                      offset1 = offset0 + 6
                  in if vr \<in> set longVRs then
                       (if offset1 + 4 \<le> length buf then
                          (let offset2 =
                                 (if getUint32 buf offset1 \<noteq> Some 0 then offset1 + 4
                                  else offset1)
                           in if offset2 + 4 \<le> length buf then
                                (case getUint32 buf offset2 of
                                   Some len \<Rightarrow> Header tag vr len (offset2 + 4)
                                 | None \<Rightarrow> HeaderThrows offset2)
                              else HeaderBreak)
                        else HeaderBreak)
                     else if vr \<in> set longVRs then
                       (let offset2 = offset1 + 2
                        in if offset2 + 4 \<le> length buf then
                             (case getUint32 buf offset2 of
                                Some len \<Rightarrow> Header tag vr len (offset2 + 4)
                              | None \<Rightarrow> HeaderThrows offset2)
                           else HeaderBreak)
                     else if offset1 + 2 \<le> length buf then
                       (case getUint16 buf offset1 of
                          Some len \<Rightarrow> Header tag vr len (offset1 + 2)
                        | None \<Rightarrow> HeaderThrows offset1)
                     else HeaderBreak)
             | _ \<Rightarrow> HeaderThrows offset0)
      | _ \<Rightarrow> HeaderThrows offset0)"

text \<open>
  Lines 116--190: what the element does to the state; \<open>None\<close> when a read or a typed
  array constructor throws, which happens before any assignment. The tag is compared
  as the lower-case string built from the two 16-bit values.
\<close>

definition valueString :: "buffer \<Rightarrow> nat \<Rightarrow> nat \<Rightarrow> nat list" where
  "valueString buf valueOffset len =
     filter (\<lambda>c. c \<noteq> 0) (take (min len 100) (drop valueOffset buf))"

definition handleElement ::
  "engine \<Rightarrow> buffer \<Rightarrow> string \<Rightarrow> string \<Rightarrow> nat \<Rightarrow> nat \<Rightarrow> parseState \<Rightarrow> parseState option" where
  "handleElement eng buf tag vr len valueOffset st =
     (if tag = ''7FE00010'' then
        (if vr = ''OW'' \<or> vr = ''OB'' then
           (if bitsAllocated st = 16 then
              (if pixelRepresentation st = 1 then
                 map_option (\<lambda>a. st\<lparr>pixelData := Some a\<rparr>)
                   (newInt16Array (bufferSlice buf valueOffset (valueOffset + len)))
               else
                 map_option (\<lambda>a. st\<lparr>pixelData := Some a\<rparr>)
                   (newUint16Array (bufferSlice buf valueOffset (valueOffset + len))))
            else
              Some (st\<lparr>pixelData :=
                      Some (newUint8Array (bufferSlice buf valueOffset (valueOffset + len)))\<rparr>))
         else Some st)
      else if tag = ''00280010'' then
        map_option (\<lambda>v. st\<lparr>rows := v\<rparr>) (getUint16 buf valueOffset)
      else if tag = ''00280011'' then
        map_option (\<lambda>v. st\<lparr>columns := v\<rparr>) (getUint16 buf valueOffset)
      else if tag = ''00280100'' then
        map_option (\<lambda>v. st\<lparr>bitsAllocated := v\<rparr>) (getUint16 buf valueOffset)
      else if tag = ''00280103'' then
        map_option (\<lambda>v. st\<lparr>pixelRepresentation := v\<rparr>) (getUint16 buf valueOffset)
      else if tag = ''00281050'' then Some st
      else if tag = ''00281051'' then Some st
      else if tag = ''00200013'' then
        (if len = 2 then
           map_option (\<lambda>v. st\<lparr>instanceTag := Some (int v)\<rparr>) (getUint16 buf valueOffset)
         else if len = 4 then
           map_option (\<lambda>v. st\<lparr>instanceTag := Some (int v)\<rparr>) (getUint32 buf valueOffset)
         else
           Some (st\<lparr>instanceTag :=
                   Some (case parseInt10 eng (valueString buf valueOffset len) of
                           None \<Rightarrow> 0 | Some num \<Rightarrow> num)\<rparr>))
      else Some st)"

definition nextOffset :: "string \<Rightarrow> nat \<Rightarrow> nat \<Rightarrow> nat" where
  "nextOffset vr len valueOffset =
     (if len mod 2 = 1 \<and> vr \<noteq> ''SQ'' \<and> vr \<noteq> ''UT'' then valueOffset + len + 1
      else valueOffset + len)"

text \<open>
  One pass through the \<open>try\<close> block of the loop: the loop is left (\<open>Break\<close>), goes on
  to its next test (\<open>Continue\<close>), or control reaches the \<open>catch\<close> (\<open>Caught\<close>), each with
  the state at that point.
\<close>

datatype stepResult = Break parseState | Continue parseState | Caught parseState

definition parseStep :: "engine \<Rightarrow> buffer \<Rightarrow> parseState \<Rightarrow> stepResult" where
  "parseStep eng buf st =
     (case readHeader buf (offset st) of
        HeaderThrows off \<Rightarrow> Caught (st\<lparr>offset := off\<rparr>)
      | HeaderBreak \<Rightarrow> Break st
      | Header tag vr len valueOffset \<Rightarrow>
          if valueOffset + len > length buf then Break (st\<lparr>offset := valueOffset\<rparr>)
          else
            (case handleElement eng buf tag vr len valueOffset (st\<lparr>offset := valueOffset\<rparr>) of
               None \<Rightarrow> Caught (st\<lparr>offset := valueOffset\<rparr>)
             | Some st' \<Rightarrow> Continue (st'\<lparr>offset := nextOffset vr len valueOffset\<rparr>)))"

definition parseStepFixed :: "engine \<Rightarrow> buffer \<Rightarrow> parseState \<Rightarrow> stepResult" where
  "parseStepFixed eng buf st =
     (case readHeaderFixed buf (offset st) of
        HeaderThrows off \<Rightarrow> Caught (st\<lparr>offset := off\<rparr>)
      | HeaderBreak \<Rightarrow> Break st
      | Header tag vr len valueOffset \<Rightarrow>
          if valueOffset + len > length buf then Continue (st\<lparr>offset := valueOffset\<rparr>)
          else
            (case handleElement eng buf tag vr len valueOffset (st\<lparr>offset := valueOffset\<rparr>) of
               None \<Rightarrow> Caught (st\<lparr>offset := valueOffset\<rparr>)
             | Some st' \<Rightarrow> Continue (st'\<lparr>offset := nextOffset vr len valueOffset\<rparr>)))"

text \<open>Every element header moves the read position forward by at least eight bytes.\<close>

lemma readHeader_forward:
  "readHeader buf off = Header tag vr len valueOffset \<Longrightarrow> off + 8 \<le> valueOffset"
  by (auto simp: readHeader_def Let_def split: option.splits if_splits)

lemma readHeader_throws:
  "readHeader buf off = HeaderThrows off' \<Longrightarrow> off \<le> off'"
  by (auto simp: readHeader_def Let_def split: option.splits if_splits)

lemma readHeaderFixed_forward:
  "readHeaderFixed buf off = Header tag vr len valueOffset \<Longrightarrow> off + 8 \<le> valueOffset"
  by (auto simp: readHeaderFixed_def Let_def split: option.splits if_splits)

lemma readHeaderFixed_throws:
  "readHeaderFixed buf off = HeaderThrows off' \<Longrightarrow> off \<le> off'"
  by (auto simp: readHeaderFixed_def Let_def split: option.splits if_splits)

lemma handleElement_offset:
  "handleElement eng buf tag vr len valueOffset st = Some st' \<Longrightarrow> offset st' = offset st"
  by (auto simp: handleElement_def split: if_splits)

lemma parseStep_Continue_forward:
  "parseStep eng buf st = Continue st' \<Longrightarrow> offset st < offset st'"
  by (auto simp: parseStep_def nextOffset_def split: headerResult.splits if_splits option.splits
      dest!: readHeader_forward)

lemma parseStep_Caught_forward:
  "parseStep eng buf st = Caught st' \<Longrightarrow> offset st \<le> offset st'"
  by (auto simp: parseStep_def split: headerResult.splits if_splits option.splits
      dest!: readHeader_forward readHeader_throws)

lemma parseStepFixed_Continue_forward:
  "parseStepFixed eng buf st = Continue st' \<Longrightarrow> offset st < offset st'"
  by (auto simp: parseStepFixed_def nextOffset_def
      split: headerResult.splits if_splits option.splits dest!: readHeaderFixed_forward)

lemma parseStepFixed_Caught_forward:
  "parseStepFixed eng buf st = Caught st' \<Longrightarrow> offset st \<le> offset st'"
  by (auto simp: parseStepFixed_def split: headerResult.splits if_splits option.splits
      dest!: readHeaderFixed_forward readHeaderFixed_throws)

text \<open>
  The loop of dicom-parser.js (lines 60--206): the \<open>catch\<close> skips four bytes and leaves
  the loop at the end of the buffer.
\<close>

function parseLoop :: "engine \<Rightarrow> buffer \<Rightarrow> parseState \<Rightarrow> parseState" where
  "parseLoop eng buf st =
     (if offset st + 8 < length buf then
        (case parseStep eng buf st of
           Break st' \<Rightarrow> st'
         | Continue st' \<Rightarrow> parseLoop eng buf st'
         | Caught st' \<Rightarrow>
             if offset st' + 4 \<ge> length buf then st'\<lparr>offset := offset st' + 4\<rparr>
             else parseLoop eng buf (st'\<lparr>offset := offset st' + 4\<rparr>))
      else st)"
  by pat_completeness auto
termination
proof (relation "measure (\<lambda>(eng, buf, st). length buf - offset st)")
  show "wf (measure (\<lambda>(eng, buf, st). length buf - offset st))" by simp
next
  fix eng :: engine and buf st st'
  assume "offset st + 8 < length buf" "parseStep eng buf st = Continue st'"
  then show "((eng, buf, st'), (eng, buf, st)) \<in> measure (\<lambda>(eng, buf, st). length buf - offset st)"
    using parseStep_Continue_forward [of eng buf st st'] by simp
next
  fix eng :: engine and buf st st'
  assume "offset st + 8 < length buf" "parseStep eng buf st = Caught st'"
    "\<not> length buf \<le> offset st' + 4"
  then show "((eng, buf, st'\<lparr>offset := offset st' + 4\<rparr>), (eng, buf, st))
               \<in> measure (\<lambda>(eng, buf, st). length buf - offset st)"
    using parseStep_Caught_forward [of eng buf st st'] by simp
qed

declare parseLoop.simps [simp del]

text \<open>
  The loop of dicom-parser-fixed.js (lines 60--220): an element that overruns the buffer
  sets the offset to its value offset and continues; the \<open>catch\<close> skips sixteen bytes.
\<close>

function parseLoopFixed :: "engine \<Rightarrow> buffer \<Rightarrow> parseState \<Rightarrow> parseState" where
  "parseLoopFixed eng buf st =
     (if offset st + 8 < length buf then
        (case parseStepFixed eng buf st of
           Break st' \<Rightarrow> st'
         | Continue st' \<Rightarrow> parseLoopFixed eng buf st'
         | Caught st' \<Rightarrow>
             if offset st' + 16 \<ge> length buf then st'\<lparr>offset := offset st' + 16\<rparr>
             else parseLoopFixed eng buf (st'\<lparr>offset := offset st' + 16\<rparr>))
      else st)"
  by pat_completeness auto
termination
proof (relation "measure (\<lambda>(eng, buf, st). length buf - offset st)")
  show "wf (measure (\<lambda>(eng, buf, st). length buf - offset st))" by simp
next
  fix eng :: engine and buf st st'
  assume "offset st + 8 < length buf" "parseStepFixed eng buf st = Continue st'"
  then show "((eng, buf, st'), (eng, buf, st)) \<in> measure (\<lambda>(eng, buf, st). length buf - offset st)"
    using parseStepFixed_Continue_forward [of eng buf st st'] by simp
next
  fix eng :: engine and buf st st'
  assume "offset st + 8 < length buf" "parseStepFixed eng buf st = Caught st'"
    "\<not> length buf \<le> offset st' + 16"
  then show "((eng, buf, st'\<lparr>offset := offset st' + 16\<rparr>), (eng, buf, st))
               \<in> measure (\<lambda>(eng, buf, st). length buf - offset st)"
    using parseStepFixed_Caught_forward [of eng buf st st'] by simp
qed

declare parseLoopFixed.simps [simp del]

text \<open>
  Lines 208--238: dimensions that the tags did not give are estimated from the number of
  samples. \<open>Math.floor(Math.sqrt(n))\<close> and \<open>Math.ceil(Math.sqrt(n))\<close> are computed on
  the integers: the largest \<open>k\<close> with \<open>k * k \<le> n\<close>, and that \<open>k\<close> or the next number.
  \<open>Number.isInteger(Math.sqrt(n))\<close> is the test that \<open>n\<close> is a perfect square.
\<close>

primrec floorSqrtUpTo :: "nat \<Rightarrow> nat \<Rightarrow> nat" where
  "floorSqrtUpTo n 0 = 0"
| "floorSqrtUpTo n (Suc k) = (if Suc k * Suc k \<le> n then Suc k else floorSqrtUpTo n k)"

definition floorSqrt :: "nat \<Rightarrow> nat" where
  "floorSqrt n = floorSqrtUpTo n n"

definition ceilSqrt :: "nat \<Rightarrow> nat" where
  "ceilSqrt n = (if floorSqrt n * floorSqrt n = n then floorSqrt n else floorSqrt n + 1)"

definition totalPixelsOf :: "parseState \<Rightarrow> nat" where
  "totalPixelsOf st = (case pixelData st of None \<Rightarrow> 0 | Some px \<Rightarrow> length (elems px))"

definition estimateDimensions :: "parseState \<Rightarrow> parseState" where
  "estimateDimensions st =
     (if rows st = 0 \<or> columns st = 0 then
        (let totalPixels = totalPixelsOf st in
         if totalPixels > 0 then
           (if floorSqrt totalPixels * floorSqrt totalPixels = totalPixels
            then st\<lparr>rows := floorSqrt totalPixels, columns := floorSqrt totalPixels\<rparr>
            else if totalPixels = 512 * 512 then st\<lparr>rows := 512, columns := 512\<rparr>
            else if totalPixels = 256 * 256 then st\<lparr>rows := 256, columns := 256\<rparr>
            else if totalPixels = 1024 * 1024 then st\<lparr>rows := 1024, columns := 1024\<rparr>
            else st\<lparr>rows := 512, columns := 512\<rparr>)
         else st\<lparr>rows := 512, columns := 512\<rparr>)
      else st)"

definition estimateDimensionsFixed :: "parseState \<Rightarrow> parseState" where
  "estimateDimensionsFixed st =
     (if rows st = 0 \<or> columns st = 0 then
        (if totalPixelsOf st > 0 then
           (let totalPixels = totalPixelsOf st in
            if floorSqrt totalPixels * floorSqrt totalPixels = totalPixels
            then st\<lparr>rows := floorSqrt totalPixels, columns := floorSqrt totalPixels\<rparr>
            else if totalPixels = 512 * 512 then st\<lparr>rows := 512, columns := 512\<rparr>
            else if totalPixels = 256 * 256 then st\<lparr>rows := 256, columns := 256\<rparr>
            else if totalPixels = 1024 * 1024 then st\<lparr>rows := 1024, columns := 1024\<rparr>
            else st\<lparr>rows := floorSqrt totalPixels, columns := ceilSqrt totalPixels\<rparr>)
         else st\<lparr>rows := 512, columns := 512\<rparr>)
      else st)"

definition resultOf :: "parseState \<Rightarrow> dicomData" where
  "resultOf st =
     \<lparr>pixelData = pixelData st, rows = rows st, columns = columns st,
      instanceTag = instanceTag st\<rparr>"

text \<open>
  \<open>parseDicom\<close> of the two files: \<open>Inl\<close> is an exception that leaves the function.
\<close>

definition parseDicom :: "engine \<Rightarrow> buffer \<Rightarrow> jsError + dicomData" where
  "parseDicom eng buf =
     (case initialOffset buf of
        None \<Rightarrow> Inl RangeError
      | Some off \<Rightarrow> Inr (resultOf (estimateDimensions (parseLoop eng buf (initialState off)))))"

definition parseDicomFixed :: "engine \<Rightarrow> buffer \<Rightarrow> jsError + dicomData" where
  "parseDicomFixed eng buf =
     (case initialOffset buf of
        None \<Rightarrow> Inl RangeError
      | Some off \<Rightarrow>
          Inr (resultOf (estimateDimensionsFixed (parseLoopFixed eng buf (initialState off)))))"




section \<open>parseDicom (dicom-parser-robust.js)\<close>

text \<open>
  \<open>findPixelData\<close> (lines 29--97) scans the buffer for the two 16-bit values of the
  pixel-data tag and reads the length that follows the VR. \<open>pixelDataAt\<close> is the body
  of its \<open>if\<close>, for a tag found at \<open>i\<close>; a \<open>DataView\<close> read outside the buffer throws.
  The two bytes of the VR are inside the buffer, since \<open>i + 12\<close> is.
\<close>

record pixelDataInfo =
  infoOffset :: nat
  infoLength :: nat

definition clampLength :: "buffer \<Rightarrow> nat \<Rightarrow> nat \<Rightarrow> pixelDataInfo" where
  "clampLength buf dataOffset len =
     (let len1 = (if len > length buf - dataOffset then length buf - dataOffset else len);
          len2 = (if dataOffset + len1 > length buf then length buf - dataOffset else len1)
      in \<lparr>infoOffset = dataOffset, infoLength = len2\<rparr>)"

definition pixelDataAt :: "buffer \<Rightarrow> nat \<Rightarrow> jsError + pixelDataInfo" where
  "pixelDataAt buf i =
     (let offset0 = i + 6;
          vr = [fromCharCode (buf ! (i + 4)), fromCharCode (buf ! (i + 5))]
      in if vr = ''OB'' \<or> vr = ''OW'' then
           (case getUint16 buf offset0 of
              None \<Rightarrow> Inl RangeError
            | Some tempLength \<Rightarrow>
                (let tempOffset = offset0 + 2 in
                 if tempLength = 0 \<and> tempOffset + 4 \<le> length buf then
                   (case getUint32 buf (tempOffset + 2) of
                      None \<Rightarrow> Inl RangeError
                    | Some len \<Rightarrow> Inr (clampLength buf (tempOffset + 2 + 4) len))
                 else Inr (clampLength buf tempOffset tempLength)))
         else
           (case getUint32 buf offset0 of
              None \<Rightarrow> Inl RangeError
            | Some len \<Rightarrow> Inr (clampLength buf (offset0 + 4) len)))"

definition findPixelData :: "buffer \<Rightarrow> jsError + pixelDataInfo option" where
  "findPixelData buf =
     (case find (\<lambda>i. getUint16 buf i = Some 0x7FE0 \<and> getUint16 buf (i + 2) = Some 0x0010)
             [0 ..< length buf - 12] of
        None \<Rightarrow> Inr None
      | Some i \<Rightarrow>
          (case pixelDataAt buf i of
             Inl e \<Rightarrow> Inl e
           | Inr info \<Rightarrow> Inr (Some info)))"

text \<open>
  \<open>findImageDimensions\<close> (lines 104--134): every position whose two 16-bit values are
  a Rows or a Columns tag overwrites the dimension with the 16-bit value eight bytes
  further, when that lies inside the buffer.
\<close>

definition dimensionStep :: "buffer \<Rightarrow> nat \<Rightarrow> nat \<times> nat \<Rightarrow> nat \<times> nat" where
  "dimensionStep buf i dims =
     (case dims of (nrows, ncols) \<Rightarrow>
        if getUint16 buf i = Some 0x0028 then
          (if getUint16 buf (i + 2) = Some 0x0010 then
             (if i + 8 + 2 \<le> length buf then
                (case getUint16 buf (i + 8) of
                   Some v \<Rightarrow> (v, ncols)
                 | None \<Rightarrow> (nrows, ncols))
              else (nrows, ncols))
           else if getUint16 buf (i + 2) = Some 0x0011 then
             (if i + 8 + 2 \<le> length buf then
                (case getUint16 buf (i + 8) of
                   Some v \<Rightarrow> (nrows, v)
                 | None \<Rightarrow> (nrows, ncols))
              else (nrows, ncols))
           else (nrows, ncols))
        else (nrows, ncols))"

definition findImageDimensions :: "buffer \<Rightarrow> nat \<times> nat" where
  "findImageDimensions buf = fold (dimensionStep buf) [0 ..< length buf - 8] (512, 512)"

text \<open>
  Lines 146--181 of \<open>parseDicom\<close>: the bytes of the pixel data are read as 16-bit
  samples when their number is even and one of the first 500 pairs has a non-zero high
  byte, and as 8-bit samples otherwise. The 16-bit constructor is given an even number
  of bytes.
\<close>

definition hasHighValues :: "buffer \<Rightarrow> bool" where
  "hasHighValues pixelBytes =
     list_ex (\<lambda>i. pixelBytes ! (i + 1) * 256 + pixelBytes ! i > 255)
       (map (\<lambda>k. 2 * k) [0 ..< (min (length pixelBytes) 1000 + 1) div 2])"

definition extractPixelData :: "buffer \<Rightarrow> pixelDataInfo \<Rightarrow> typedArray" where
  "extractPixelData buf info =
     (let pixelBytes = bufferSlice buf (infoOffset info) (infoOffset info + infoLength info)
      in if length pixelBytes mod 2 = 0 then
           (if hasHighValues pixelBytes
            then \<lparr>kind = Uint16Array, elems = words16 pixelBytes\<rparr>
            else newUint8Array pixelBytes)
         else newUint8Array pixelBytes)"

text \<open>
  Lines 187--239: without a pixel-data tag, the buffer after the preamble, then the tail
  of the file, then the whole file are tried against the expected number of samples.
  The two tolerances are computed on exact reals.
\<close>

definition afterPreamble :: "buffer \<Rightarrow> nat \<Rightarrow> typedArray option" where
  "afterPreamble buf estimatedTotalPixels =
     (if length buf \<ge> 132 + estimatedTotalPixels then
        (let dataStart =
               (if [fromCharCode (buf ! 128), fromCharCode (buf ! 129),
                    fromCharCode (buf ! 130), fromCharCode (buf ! 131)] = ''DICM''
                then 132 else 0);
             pixelBytes = drop dataStart buf
         in if length pixelBytes \<ge> estimatedTotalPixels
            then Some (newUint8Array (take estimatedTotalPixels pixelBytes))
            else None)
      else None)"

definition tailBlock :: "buffer \<Rightarrow> nat \<Rightarrow> typedArray option" where
  "tailBlock buf estimatedSize =
     (let dataStart = length buf - estimatedSize * 2 in
      if length buf - dataStart \<ge> estimatedSize then
        (let pixelBytes = drop dataStart buf in
         if \<bar>real (length pixelBytes) - real estimatedSize\<bar> < real estimatedSize * 0.1
         then Some (newUint8Array pixelBytes)
         else None)
      else None)"

definition wholeFile :: "buffer \<Rightarrow> nat \<Rightarrow> typedArray option" where
  "wholeFile buf estimatedSize =
     (if \<bar>real (length buf) - real estimatedSize\<bar> < real estimatedSize * 0.5
      then Some (newUint8Array buf)
      else None)"

text \<open>
  Lines 242--279: when the number of samples is not rows * columns, the dimensions
  are replaced by a common size of that many samples, else by the square root when the
  number is a perfect square, else by the greatest divisor up to the square root and its
  cofactor. Each entry of \<open>commonSizes\<close> is (w, h).
\<close>

definition commonSizes :: "(nat \<times> nat) list" where
  "commonSizes =
     [(512, 512), (256, 256), (1024, 1024), (128, 128),
      (256, 512), (512, 256), (1024, 512), (512, 1024)]"

definition inferDimensions :: "nat \<Rightarrow> nat \<times> nat \<Rightarrow> nat \<times> nat" where
  "inferDimensions totalPixels dims =
     (case dims of (nrows, ncols) \<Rightarrow>
        if nrows * ncols \<noteq> totalPixels then
          (case (case find (\<lambda>(w, h). w * h = totalPixels) commonSizes of
                   Some (w, h) \<Rightarrow> (h, w)
                 | None \<Rightarrow> (nrows, ncols)) of
             (nrows1, ncols1) \<Rightarrow>
               if nrows1 * ncols1 \<noteq> totalPixels then
                 (if floorSqrt totalPixels * floorSqrt totalPixels = totalPixels
                  then (floorSqrt totalPixels, floorSqrt totalPixels)
                  else
                    (case find (\<lambda>w. totalPixels mod w = 0)
                            (rev [1 ..< Suc (floorSqrt totalPixels)]) of
                       Some w \<Rightarrow> (totalPixels div w, w)
                     | None \<Rightarrow> (nrows1, ncols1)))
               else (nrows1, ncols1))
        else (nrows, ncols))"

text \<open>
  \<open>parseDicom\<close> of dicom-parser-robust.js. Its metadata is empty, so the result has no
  instance-number entry.
\<close>

definition parseDicomRobust :: "buffer \<Rightarrow> jsError + dicomData" where
  "parseDicomRobust buf =
     (case findPixelData buf of
        Inl e \<Rightarrow> Inl e
      | Inr pixelDataInfo \<Rightarrow>
          (let dims = findImageDimensions buf;
               estimatedSize = fst dims * snd dims;
               pixelData0 =
                 (case pixelDataInfo of
                    Some info \<Rightarrow> Some (extractPixelData buf info)
                  | None \<Rightarrow>
                      (case afterPreamble buf estimatedSize of
                         Some px \<Rightarrow> Some px
                       | None \<Rightarrow>
                           (case tailBlock buf estimatedSize of
                              Some px \<Rightarrow> Some px
                            | None \<Rightarrow> wholeFile buf estimatedSize)));
               dims1 =
                 (case pixelData0 of
                    Some px \<Rightarrow> inferDimensions (length (elems px)) dims
                  | None \<Rightarrow> dims)
           in Inr \<lparr>pixelData = pixelData0, rows = fst dims1, columns = snd dims1,
                   instanceTag = None\<rparr>))"

text \<open>
  What the loops of \<open>processDicomFolder\<close> in dicom-parser-robust.js see of a file that is
  read without error, and the function on the files themselves, each a name with its
  bytes.
\<close>

definition readRobust :: "string \<times> buffer \<Rightarrow> dicomFile" where
  "readRobust file =
     \<lparr>name = fst file,
      parsed = (case parseDicomRobust (snd file) of Inl e \<Rightarrow> None | Inr d \<Rightarrow> Some d),
      contents = Some (snd file)\<rparr>"

definition processDicomFolderRobustOn ::
  "engine \<Rightarrow> (string \<times> buffer) list \<Rightarrow> pipelineError + volume" where
  "processDicomFolderRobustOn eng files = processDicomFolderRobust eng (map readRobust files)"
section \<open>The fragment shader: ray marching and compositing\<close>

text \<open>
  The shader computes on floating-point numbers; the model computes on the reals. The
  texture fetch \<open>texture2D(u_volumeTexture, uv).r\<close> is a parameter of the model.
\<close>

record vec3 =
  vx :: real
  vy :: real
  vz :: real


record uniforms =
  u_textureWidth :: real
  u_textureHeight :: real
  u_slices :: real
  u_threshold :: real
  u_opacity :: real
  u_windowLevel :: real
  u_windowWidth :: real
  u_volumeSize :: vec3
  u_zoom :: real
  u_rotationX :: real
  u_rotationY :: real

type_synonym sampler2D = "real \<times> real \<Rightarrow> real"

definition clampReal :: "real \<Rightarrow> real \<Rightarrow> real \<Rightarrow> real" where
  "clampReal x lo hi = min (max x lo) hi"

definition floorReal :: "real \<Rightarrow> real" where
  "floorReal x = of_int \<lfloor>x\<rfloor>"

definition fract :: "real \<Rightarrow> real" where
  "fract x = x - floorReal x"

definition modReal :: "real \<Rightarrow> real \<Rightarrow> real" where
  "modReal x y = x - y * floorReal (x / y)"

definition mix :: "real \<Rightarrow> real \<Rightarrow> real \<Rightarrow> real" where
  "mix a b t = a * (1 - t) + b * t"

definition vadd :: "vec3 \<Rightarrow> vec3 \<Rightarrow> vec3" where
  "vadd a b = \<lparr>vx = vx a + vx b, vy = vy a + vy b, vz = vz a + vz b\<rparr>"

definition vscale :: "vec3 \<Rightarrow> real \<Rightarrow> vec3" where
  "vscale a k = \<lparr>vx = vx a * k, vy = vy a * k, vz = vz a * k\<rparr>"

text \<open>\<open>sampleVolume\<close> (lines 112--150).\<close>

definition sampleVolume :: "uniforms \<Rightarrow> sampler2D \<Rightarrow> vec3 \<Rightarrow> real" where
  "sampleVolume u tex pos0 =
     (let px = clampReal (vx pos0) 0.001 0.999;
          py = clampReal (vy pos0) 0.001 0.999;
          pz = clampReal (vz pos0) 0.001 0.999;
          sliceF = pz * u_slices u;
          sliceIdx = floorReal sliceF;
          sliceFrac = fract sliceF;
          slicesPerRow = of_int \<lceil>sqrt (u_slices u)\<rceil>;
          row = floorReal (sliceIdx / slicesPerRow);
          col = modReal sliceIdx slicesPerRow;
          sliceSizeX = vx (u_volumeSize u) / u_textureWidth u;
          sliceSizeY = vy (u_volumeSize u) / u_textureHeight u;
          sliceOffsetX = col * vx (u_volumeSize u) / u_textureWidth u;
          sliceOffsetY = row * vy (u_volumeSize u) / u_textureHeight u;
          uvX = px * sliceSizeX + sliceOffsetX;
          uvY = py * sliceSizeY + sliceOffsetY;
          value1 = tex (uvX, uvY)
      in if sliceFrac > 0 \<and> sliceIdx < u_slices u - 1 then
           (let nextSliceIdx = sliceIdx + 1;
                nextRow = floorReal (nextSliceIdx / slicesPerRow);
                nextCol = modReal nextSliceIdx slicesPerRow;
                nextSliceOffsetX = nextCol * vx (u_volumeSize u) / u_textureWidth u;
                nextSliceOffsetY = nextRow * vy (u_volumeSize u) / u_textureHeight u;
                value2 = tex (uvX - sliceOffsetX + nextSliceOffsetX,
                              uvY - sliceOffsetY + nextSliceOffsetY)
            in mix value1 value2 sliceFrac)
         else value1)"

text \<open>
  The state of the marching loop (lines 214--218): the three colour channels of
  \<open>accumulatedColor\<close> that the output reads, the accumulated opacity and the step count.
\<close>

record marchState =
  currentPosition :: vec3
  accumulatedColor :: vec3
  accumulatedAlpha :: real
  steps :: nat

text \<open>Window levelling (lines 237--241).\<close>

definition normalizedDensityOf :: "uniforms \<Rightarrow> real \<Rightarrow> real" where
  "normalizedDensityOf u density =
     (let windowMin = u_windowLevel u - u_windowWidth u * 0.5;
          windowMax = u_windowLevel u + u_windowWidth u * 0.5
      in clampReal ((density - windowMin) / (windowMax - windowMin)) 0 1)"

text \<open>The threshold test and the front-to-back compositing (lines 244--258).\<close>

definition composite :: "uniforms \<Rightarrow> real \<Rightarrow> marchState \<Rightarrow> marchState" where
  "composite u density st =
     (let normalizedDensity = normalizedDensityOf u density in
      if normalizedDensity > u_threshold u / 255 then
        (let intensity = normalizedDensity;
             alpha = intensity * u_opacity u * 0.05;
             newColor = \<lparr>vx = intensity * alpha, vy = intensity * alpha, vz = intensity * alpha\<rparr>
         in st\<lparr>accumulatedColor :=
                  vadd (accumulatedColor st) (vscale newColor (1 - accumulatedAlpha st)),
               accumulatedAlpha := accumulatedAlpha st + alpha * (1 - accumulatedAlpha st)\<rparr>)
      else st)"

text \<open>The part of the loop body after the two exits (lines 233--262).\<close>

definition marchStep :: "uniforms \<Rightarrow> sampler2D \<Rightarrow> vec3 \<Rightarrow> marchState \<Rightarrow> marchState" where
  "marchStep u tex step st =
     (let st' = composite u (sampleVolume u tex (currentPosition st)) st
      in st'\<lparr>currentPosition := vadd (currentPosition st') step, steps := steps st' + 1\<rparr>)"

definition outsideVolume :: "vec3 \<Rightarrow> bool" where
  "outsideVolume p =
     (vx p < 0 \<or> vx p > 1 \<or> vy p < 0 \<or> vy p > 1 \<or> vz p < 0 \<or> vz p > 1)"

text \<open>
  The loop \<open>for (int i = 0; i < 200; i++)\<close> with its two exits: the first argument is
  the number of iterations that remain.
\<close>

fun march :: "nat \<Rightarrow> uniforms \<Rightarrow> sampler2D \<Rightarrow> vec3 \<Rightarrow> marchState \<Rightarrow> marchState" where
  "march 0 u tex step st = st"
| "march (Suc n) u tex step st =
     (if accumulatedAlpha st \<ge> 0.95 \<or> steps st > 200 then st
      else if outsideVolume (currentPosition st) then st
      else march n u tex step (marchStep u tex step st))"



















section \<open>Example inputs\<close>

text \<open>
  An engine whose calls accept 65536 arguments, whose collation is the order of the
  character codes, and whose \<open>parseInt\<close> reads a long run of digits exactly.
\<close>

definition exampleEngine :: engine where
  "exampleEngine =
     \<lparr>argumentLimit = 65536,
      localeCompare = (\<lambda>a b. if a < b then - 1 else if a = b then 0 else 1),
      longDigits = (\<lambda>digits. foldl (\<lambda>a c. 10 * a + int (c - 48)) 0 digits)\<rparr>"

text \<open>
  A file whose parse result carries the given instance tag, dimensions and pixel buffer,
  and a file whose parse found no pixel data.
\<close>

definition scenarioFile :: "string \<Rightarrow> int option \<Rightarrow> nat \<Rightarrow> nat \<Rightarrow> arrayKind \<Rightarrow> int list \<Rightarrow> dicomFile" where
  "scenarioFile nm tag r c k px =
     \<lparr>name = nm,
      parsed = Some \<lparr>pixelData = Some \<lparr>kind = k, elems = px\<rparr>, rows = r, columns = c,
                     instanceTag = tag\<rparr>,
      contents = None\<rparr>"

definition droppedFile :: dicomFile where
  "droppedFile = \<lparr>name = ''empty.dcm'',
                  parsed = Some \<lparr>pixelData = None, rows = 512, columns = 512, instanceTag = None\<rparr>,
                  contents = Some [0, 1, 2, 3]\<rparr>"

text \<open>A file that cannot be parsed, of 200000 bytes of value 5.\<close>

definition rawFile :: dicomFile where
  "rawFile = \<lparr>name = ''raw.bin'', parsed = None, contents = Some (replicate 200000 5)\<rparr>"





definition ctSliceFile :: "string \<times> buffer" where
  "ctSliceFile =
     (''ct.dcm'', [224, 127, 16, 0, 79, 87, 0, 0, 0, 0, 0, 0, 8, 0] @ replicate 524288 1)"

text \<open>A volume of three slices, each two texels wide and one high.\<close>

definition exampleVolume :: volume where
  "exampleVolume = \<lparr>voxels = [1, 2, 3, 4, 5, 6], dimensions = (2, 1, 3)\<rparr>"

text \<open>
  A buffer of 58 bytes: an element (0008,0018) of VR UI that declares 10000 bytes with
  50 bytes left, then at its value offset a Rows element of value 7 and a Columns
  element of value 9, then zeros.
\<close>

definition overrunBuffer :: buffer where
  "overrunBuffer =
     [8, 0, 24, 0, 85, 73, 16, 39,
      40, 0, 16, 0, 85, 83, 2, 0, 7, 0,
      40, 0, 17, 0, 85, 83, 2, 0, 9, 0,
      0, 0, 0, 0, 0, 0, 0, 0, 0, 0, 0, 0, 0, 0, 0, 0, 0, 0, 0, 0, 0, 0, 0, 0, 0, 0, 0, 0, 0, 0]"

text \<open>
  The renderer's initial parameters over a one-slice volume, a ray along the negative z
  axis, and the state of a march that starts on the front face of the cube.
\<close>

definition exampleUniforms :: uniforms where
  "exampleUniforms =
     \<lparr>u_textureWidth = 1, u_textureHeight = 1, u_slices = 1, u_threshold = 100,
      u_opacity = 0.8, u_windowLevel = 128, u_windowWidth = 256,
      u_volumeSize = \<lparr>vx = 1, vy = 1, vz = 1\<rparr>, u_zoom = 1, u_rotationX = 0, u_rotationY = 0\<rparr>"

definition exampleRay :: vec3 where
  "exampleRay = \<lparr>vx = 0, vy = 0, vz = - 1\<rparr>"

definition exampleStart :: marchState where
  "exampleStart =
     \<lparr>currentPosition = \<lparr>vx = 0.5, vy = 0.5, vz = 0\<rparr>,
      accumulatedColor = \<lparr>vx = 0, vy = 0, vz = 0\<rparr>, accumulatedAlpha = 0, steps = 0\<rparr>"

section \<open>Properties of processDicomFolder\<close>

subsection \<open>Collecting and ordering the slices\<close>

lemma collectSlices_map_filter:
  "collectSlices files acc = acc @ List.map_filter fileSlice files"
  by (induction files arbitrary: acc) (auto simp: List.map_filter_simps split: option.splits)

lemma length_insertBy [simp]: "length (insertBy cmp x ys) = Suc (length ys)"
  by (induction ys) auto

lemma length_sortBy [simp]: "length (sortBy cmp xs) = length xs"
  by (induction xs) (auto simp: sortBy_def)

lemma set_insertBy [simp]: "set (insertBy cmp x ys) = insert x (set ys)"
  by (induction ys) auto

lemma set_sortBy [simp]: "set (sortBy cmp xs) = set xs"
  by (induction xs) (auto simp: sortBy_def)

lemma sortBy_Nil_iff [simp]: "sortBy cmp xs = [] \<longleftrightarrow> xs = []"
  using length_sortBy [of cmp xs] by (metis length_0_conv)

lemma insertBy_insort_key:
  "(\<And>y. y \<in> set ys \<Longrightarrow> (cmp x y \<le> 0) = (k x \<le> k y)) \<Longrightarrow> insertBy cmp x ys = insort_key k x ys"
  by (induction ys) auto

lemma sortBy_sort_key:
  assumes "\<And>x y. x \<in> set xs \<Longrightarrow> y \<in> set xs \<Longrightarrow> (cmp x y \<le> 0) = (k x \<le> (k y :: int))"
  shows "sortBy cmp xs = sort_key k xs"
  using assms
proof (induction xs)
  case Nil
  then show ?case by (simp add: sortBy_def)
next
  case (Cons a xs)
  have IH: "sortBy cmp xs = sort_key k xs" using Cons by auto
  have "sortBy cmp (a # xs) = insertBy cmp a (sortBy cmp xs)" by (simp add: sortBy_def)
  also have "\<dots> = insort_key k a (sortBy cmp xs)"
    by (rule insertBy_insort_key) (use Cons.prems in auto)
  finally show ?case using IH by simp
qed




lemma length_storeAt [simp]: "length (elems (storeAt a i v)) = length (elems a)"
  by (simp add: storeAt_def)

lemma length_fillSlice [simp]: "length (elems (fillSlice n z sd vol)) = length (elems vol)"
proof -
  have "length (elems (fold (\<lambda>i vol. storeAt vol (z * n + i) (elems sd ! i)) is vol)) = length (elems vol)" for "is"
    by (induction "is" arbitrary: vol) auto
  then show ?thesis by (simp add: fillSlice_def)
qed

lemma length_fillVolume [simp]: "length (elems (fillVolume n slices vol)) = length (elems vol)"
proof -
  have "length (elems (fold (\<lambda>z vol. fillSlice n z (data (slices ! z)) vol) zs vol)) = length (elems vol)" for zs
    by (induction zs arbitrary: vol) auto
  then show ?thesis by (simp add: fillVolume_def)
qed

lemma length_assembleInto:
  "length (assembleInto k ordered) = sliceRows (hd ordered) * sliceColumns (hd ordered) * length ordered"
  by (simp add: assembleInto_def Let_def newArray_def)

lemma length_assembledField:
  "length (assembledField ordered) = sliceRows (hd ordered) * sliceColumns (hd ordered) * length ordered"
  by (simp add: assembledField_def length_assembleInto)

lemma length_normalizedVolume [simp]: "length (normalizedVolume xs) = length xs"
  by (cases xs) (auto simp: normalizedVolume_def)

lemma length_assembledFieldRobust:
  "length (assembledFieldRobust ordered)
     = sliceRows (hd ordered) * sliceColumns (hd ordered) * length ordered"
  by (simp add: assembledFieldRobust_def length_assembleInto)

lemma accepted_iff: "collectSlices files [] \<noteq> [] \<longleftrightarrow> (\<exists>f\<in>set files. fileSlice f \<noteq> None)"
  by (auto simp: collectSlices_map_filter List.map_filter_def filter_empty_conv)

lemma length_collectSlices:
  "length (collectSlices files []) = length (filter (\<lambda>f. fileSlice f \<noteq> None) files)"
  by (simp add: collectSlices_map_filter List.map_filter_def)

lemma fileSlice_scenario:
  "fileSlice (scenarioFile nm tag r c k px) =
     (if px \<noteq> [] then
        if r * c \<le> length px then
          Some \<lparr>data = \<lparr>kind = k, elems = take (r * c) px\<rparr>, sliceRows = r, sliceColumns = c,
                instanceNumber = Some (orZero tag), fileName = nm\<rparr>
        else if 100 < length px then
          Some \<lparr>data = \<lparr>kind = Uint8Array,
                         elems = map (toElem Uint8Array) px @ replicate (r * c - length px) 0\<rparr>,
                sliceRows = r, sliceColumns = c,
                instanceNumber = Some (orZero tag), fileName = nm\<rparr>
        else None
      else None)"
  by (simp add: fileSlice_def sliceOfFile_def scenarioFile_def Let_def arraySlice0_def
      arraySet_def newArray_def)

subsection \<open>Acceptance of a file\<close>

lemma fileSlice_Some_cases:
  assumes "fileSlice f = Some s"
  obtains d px where "parsed f = Some d" "pixelData d = Some px" "0 < length (elems px)"
    "sliceRows s = rows d" "sliceColumns s = columns d" "fileName s = name f"
    "instanceNumber s = Some (orZero (instanceTag d))"
    "rows d * columns d \<le> length (elems px) \<Longrightarrow>
       data s = \<lparr>kind = kind px, elems = take (rows d * columns d) (elems px)\<rparr>"
    "length (elems px) < rows d * columns d \<Longrightarrow>
       100 < length (elems px) \<and>
       data s = \<lparr>kind = Uint8Array,
                 elems = map (toElem Uint8Array) (elems px)
                           @ replicate (rows d * columns d - length (elems px)) 0\<rparr>"
proof -
  from assms obtain d where d: "parsed f = Some d" "sliceOfFile (name f) d = Some s"
    by (auto simp: fileSlice_def split: option.splits)
  then obtain px where px: "pixelData d = Some px" "0 < length (elems px)"
    by (auto simp: sliceOfFile_def split: option.splits if_splits)
  show ?thesis
  proof (rule that [OF d(1) px])
    show "sliceRows s = rows d" "sliceColumns s = columns d" "fileName s = name f"
         "instanceNumber s = Some (orZero (instanceTag d))"
      using d(2) px
      by (auto simp: sliceOfFile_def Let_def arraySet_def newArray_def split: if_splits)
    show "data s = \<lparr>kind = kind px, elems = take (rows d * columns d) (elems px)\<rparr>"
      if "rows d * columns d \<le> length (elems px)"
      using d(2) px that by (auto simp: sliceOfFile_def Let_def arraySlice0_def)
    show "100 < length (elems px) \<and>
       data s = \<lparr>kind = Uint8Array,
                 elems = map (toElem Uint8Array) (elems px)
                           @ replicate (rows d * columns d - length (elems px)) 0\<rparr>"
      if "length (elems px) < rows d * columns d"
      using d(2) px that
      by (auto simp: sliceOfFile_def Let_def arraySet_def newArray_def split: if_splits)
  qed
qed


lemma fileSlice_length:
  assumes "fileSlice f = Some s"
  shows "length (elems (data s)) = sliceRows s * sliceColumns s"
proof (rule fileSlice_Some_cases [OF assms])
  fix d px
  assume r: "sliceRows s = rows d" and c: "sliceColumns s = columns d"
    and t: "rows d * columns d \<le> length (elems px) \<Longrightarrow>
       data s = \<lparr>kind = kind px, elems = take (rows d * columns d) (elems px)\<rparr>"
    and p: "length (elems px) < rows d * columns d \<Longrightarrow>
       100 < length (elems px) \<and>
       data s = \<lparr>kind = Uint8Array,
                 elems = map (toElem Uint8Array) (elems px)
                           @ replicate (rows d * columns d - length (elems px)) 0\<rparr>"
  show ?thesis
  proof (cases "rows d * columns d \<le> length (elems px)")
    case True
    with t r c show ?thesis by simp
  next
    case False
    with p r c show ?thesis by simp
  qed
qed

lemma lastResortSlice_length:
  assumes "lastResortSlice n f = Some s"
  shows "length (elems (data s)) = sliceRows s * sliceColumns s"
proof -
  from assms obtain bytes w h pixels where
    f: "find (\<lambda>(w, h, pixels). length bytes \<ge> pixels) commonDims = Some (w, h, pixels)"
    and s: "s = \<lparr>data = \<lparr>kind = Uint8Array, elems = map int (take pixels bytes)\<rparr>,
                 sliceRows = h, sliceColumns = w,
                 instanceNumber = Some (int n), fileName = name f\<rparr>"
    by (auto simp: lastResortSlice_def split: option.splits)
  from f have "pixels = h * w" "pixels \<le> length bytes"
    by (auto simp: commonDims_def split: if_splits)
  with s show ?thesis by simp
qed

lemma fileSliceRobust_length:
  assumes "fileSliceRobust n f = Some s"
  shows "length (elems (data s)) = sliceRows s * sliceColumns s"
  using assms
  by (auto simp: fileSliceRobust_def sliceOfFileRobust_def Let_def arraySet_def newArray_def
      arraySlice0_def split: option.splits if_splits)

lemma collectSlicesRobust_length:
  assumes "\<forall>s\<in>set acc. length (elems (data s)) = sliceRows s * sliceColumns s"
  shows "\<forall>s\<in>set (collectSlicesRobust files acc).
           length (elems (data s)) = sliceRows s * sliceColumns s"
  using assms
proof (induction files arbitrary: acc)
  case Nil
  then show ?case by simp
next
  case (Cons f fs)
  show ?case
  proof (cases "fileSliceRobust (length acc) f")
    case None
    with Cons show ?thesis by simp
  next
    case (Some x)
    then have "\<forall>s\<in>set (acc @ [x]). length (elems (data s)) = sliceRows s * sliceColumns s"
      using Cons.prems fileSliceRobust_length by auto
    from Cons.IH [OF this] Some show ?thesis by simp
  qed
qed

lemma lastResort_length:
  assumes "\<forall>s\<in>set acc. length (elems (data s)) = sliceRows s * sliceColumns s"
  shows "\<forall>s\<in>set (lastResort files acc).
           length (elems (data s)) = sliceRows s * sliceColumns s"
  using assms
proof (induction files arbitrary: acc)
  case Nil
  then show ?case by simp
next
  case (Cons f fs)
  show ?case
  proof (cases "lastResortSlice (length acc) f")
    case None
    with Cons show ?thesis by simp
  next
    case (Some x)
    then have "\<forall>s\<in>set (acc @ [x]). length (elems (data s)) = sliceRows s * sliceColumns s"
      using Cons.prems lastResortSlice_length by auto
    from Cons.IH [OF this] Some show ?thesis by simp
  qed
qed

lemma recoveredSlices_length:
  "\<forall>s\<in>set (recoveredSlices files).
           length (elems (data s)) = sliceRows s * sliceColumns s"
proof (cases "collectSlicesRobust files [] = []")
  case True
  then have "recoveredSlices files = lastResort files []" by (simp add: recoveredSlices_def)
  then show ?thesis using lastResort_length [of "[]" files] by simp
next
  case False
  then have "recoveredSlices files = collectSlicesRobust files []" by (simp add: recoveredSlices_def)
  then show ?thesis using collectSlicesRobust_length [of "[]" files] by simp
qed

lemma collectSlices_length:
  "\<forall>s\<in>set (collectSlices files []). length (elems (data s)) = sliceRows s * sliceColumns s"
  by (auto simp: collectSlices_map_filter List.map_filter_def dest: fileSlice_length)

lemma fileSliceRobust_None_iff: "fileSliceRobust n f = None \<longleftrightarrow> fileSlice f = None"
  by (auto simp: fileSliceRobust_def fileSlice_def sliceOfFileRobust_def sliceOfFile_def Let_def
      split: option.splits)

lemma collectSlicesRobust_Nil_iff:
  "collectSlicesRobust files acc = [] \<longleftrightarrow> acc = [] \<and> (\<forall>f\<in>set files. fileSlice f = None)"
proof (induction files arbitrary: acc)
  case Nil
  then show ?case by simp
next
  case (Cons f fs)
  show ?case
  proof (cases "fileSliceRobust (length acc) f")
    case None
    then have "fileSlice f = None" by (simp add: fileSliceRobust_None_iff)
    with None Cons show ?thesis by simp
  next
    case (Some s)
    then have "fileSlice f \<noteq> None" using fileSliceRobust_None_iff [of "length acc" f] by simp
    with Some Cons show ?thesis by simp
  qed
qed

lemma lastResortSlice_None_iff: "lastResortSlice n f = None \<longleftrightarrow> lastResortSlice 0 f = None"
  by (auto simp: lastResortSlice_def split: option.splits)

lemma lastResort_Nil_iff:
  "lastResort files acc = [] \<longleftrightarrow> acc = [] \<and> (\<forall>f\<in>set files. lastResortSlice 0 f = None)"
proof (induction files arbitrary: acc)
  case Nil
  then show ?case by simp
next
  case (Cons f fs)
  show ?case
  proof (cases "lastResortSlice (length acc) f")
    case None
    then have "lastResortSlice 0 f = None" using lastResortSlice_None_iff by blast
    with None Cons show ?thesis by simp
  next
    case (Some s)
    then have "lastResortSlice 0 f \<noteq> None" using lastResortSlice_None_iff [of "length acc" f] by simp
    with Some Cons show ?thesis by simp
  qed
qed

lemma recoveredSlices_Nil_iff:
  "recoveredSlices files = [] \<longleftrightarrow>
     (\<forall>f\<in>set files. fileSlice f = None \<and> lastResortSlice 0 f = None)"
  by (auto simp: recoveredSlices_def Let_def collectSlicesRobust_Nil_iff lastResort_Nil_iff)

text \<open>
  The outcome of \<open>processDicomFolder\<close>: the fatal error without a slice, the
  RangeError of the spread call when a 16-bit field has more elements than the engine
  accepts arguments, and the volume otherwise.
\<close>

lemma processDicomFolder_outcome:
  "processDicomFolder eng files =
     (if collectSlices files [] = [] then Inl NoValidDicomFiles
      else if is16Bit (orderedSlices eng files)
              \<and> argumentLimit eng < length (assembledField (orderedSlices eng files))
      then Inl SpreadRangeError
      else Inr \<lparr>voxels = (if is16Bit (orderedSlices eng files)
                          then normalizedVolume (assembledField (orderedSlices eng files))
                          else assembledField (orderedSlices eng files)),
                dimensions = (sliceColumns (hd (orderedSlices eng files)),
                              sliceRows (hd (orderedSlices eng files)),
                              length (orderedSlices eng files))\<rparr>)"
  by (simp add: processDicomFolder_def Let_def orderedSlices_def normalizeVolume_def)

lemma processDicomFolderRobust_outcome:
  "processDicomFolderRobust eng files =
     (if recoveredSlices files = [] then Inl NoValidDicomFilesAfterRecovery
      else if is16BitRobust (orderedSlicesRobust files)
              \<and> argumentLimit eng < length (assembledFieldRobust (orderedSlicesRobust files))
      then Inl SpreadRangeError
      else Inr \<lparr>voxels = (if is16BitRobust (orderedSlicesRobust files)
                          then normalizedVolume (assembledFieldRobust (orderedSlicesRobust files))
                          else assembledFieldRobust (orderedSlicesRobust files)),
                dimensions = (sliceColumns (hd (orderedSlicesRobust files)),
                              sliceRows (hd (orderedSlicesRobust files)),
                              length (orderedSlicesRobust files))\<rparr>)"
  by (simp add: processDicomFolderRobust_def Let_def orderedSlicesRobust_def normalizeVolume_def)

subsection \<open>Normalisation\<close>

lemma maxVal_Max: "xs \<noteq> [] \<Longrightarrow> maxVal xs = Max (set xs)"
  by (cases xs) (simp_all add: maxVal_def Max.set_eq_fold [symmetric])

lemma minVal_Min: "xs \<noteq> [] \<Longrightarrow> minVal xs = Min (set xs)"
  by (cases xs) (simp_all add: minVal_def Min.set_eq_fold [symmetric])

lemma rangeOf_pos: "xs \<noteq> [] \<Longrightarrow> 0 < rangeOf xs"
proof -
  assume ne: "xs \<noteq> []"
  then have "Min (set xs) \<le> Max (set xs)" by (simp add: Min_le_iff)
  then have "Max (set xs) - Min (set xs) = 0 \<or> 0 < Max (set xs) - Min (set xs)" by linarith
  then show ?thesis using ne by (auto simp: rangeOf_def maxVal_Max minVal_Min)
qed

lemma rangeOf_bound:
  assumes "x \<in> set xs"
  shows "0 \<le> x - minVal xs \<and> x - minVal xs \<le> rangeOf xs"
proof -
  from assms have ne: "xs \<noteq> []" by auto
  have "Min (set xs) \<le> x" "x \<le> Max (set xs)" using assms by simp_all
  then show ?thesis using ne by (auto simp: rangeOf_def maxVal_Max minVal_Min)
qed

lemma mathRound_scaled_bounds:
  assumes "0 \<le> a" "a \<le> r" "0 < (r::int)"
  shows "0 \<le> mathRound ((real_of_int a / real_of_int r) * 255)
       \<and> mathRound ((real_of_int a / real_of_int r) * 255) \<le> 255"
proof -
  let ?q = "(real_of_int a / real_of_int r) * 255"
  have q0: "0 \<le> ?q" using assms by simp
  have "real_of_int a / real_of_int r \<le> 1" using assms by simp
  then have "(real_of_int a / real_of_int r) * 255 \<le> 1 * 255"
    by (rule mult_right_mono) simp
  then have q1: "?q \<le> 255" by simp
  have "0 \<le> \<lfloor>?q + 1 / 2\<rfloor>" using q0 by simp
  moreover have "\<lfloor>?q + 1 / 2\<rfloor> \<le> 255"
  proof -
    have "?q + 1 / 2 < 256" using q1 by simp
    then have "\<lfloor>?q + 1 / 2\<rfloor> < 256" by (simp add: floor_less_iff)
    then show ?thesis by simp
  qed
  ultimately show ?thesis by (simp add: mathRound_def)
qed

lemma normalizeVoxel_exact:
  assumes "x \<in> set xs"
  shows "normalizeVoxel (minVal xs) (rangeOf xs) x =
           mathRound ((real_of_int (x - minVal xs) / real_of_int (rangeOf xs)) * 255)"
proof -
  from assms have ne: "xs \<noteq> []" by auto
  have b: "0 \<le> x - minVal xs" "x - minVal xs \<le> rangeOf xs"
    using rangeOf_bound [OF assms] by simp_all
  from mathRound_scaled_bounds [OF b rangeOf_pos [OF ne]]
  show ?thesis by (simp add: normalizeVoxel_def toElem_def)
qed

lemma normalizedVolume_map:
  "normalizedVolume xs =
     map (\<lambda>x. mathRound ((real_of_int (x - minVal xs) / real_of_int (rangeOf xs)) * 255)) xs"
proof -
  have "normalizedVolume xs = map (normalizeVoxel (minVal xs) (rangeOf xs)) xs"
    by (cases xs) (simp_all add: normalizedVolume_def)
  also have "\<dots> = map (\<lambda>x. mathRound ((real_of_int (x - minVal xs) / real_of_int (rangeOf xs)) * 255)) xs"
    by (rule map_cong) (simp_all add: normalizeVoxel_exact)
  finally show ?thesis .
qed

subsection \<open>The records of dicom-parser-robust.js\<close>

lemma fileSliceRobust_fileSlice:
  "fileSliceRobust n f = map_option (\<lambda>s. s\<lparr>instanceNumber := Some (int n)\<rparr>) (fileSlice f)"
  by (auto simp: fileSliceRobust_def fileSlice_def sliceOfFileRobust_def sliceOfFile_def Let_def
      split: option.splits)

lemma fileSliceRobust_instanceNumber:
  "fileSliceRobust n f = Some s \<Longrightarrow> instanceNumber s = Some (int n)"
  by (auto simp: fileSliceRobust_fileSlice)

lemma lastResortSlice_instanceNumber:
  "lastResortSlice n f = Some s \<Longrightarrow> instanceNumber s = Some (int n)"
  by (auto simp: lastResortSlice_def split: option.splits)

lemma collectSlicesRobust_instanceNumbers:
  assumes "map instanceNumber acc = map (\<lambda>i. Some (int i)) [0 ..< length acc]"
  shows "map instanceNumber (collectSlicesRobust files acc)
           = map (\<lambda>i. Some (int i)) [0 ..< length (collectSlicesRobust files acc)]"
  using assms
proof (induction files arbitrary: acc)
  case Nil
  then show ?case by simp
next
  case (Cons f fs)
  show ?case
  proof (cases "fileSliceRobust (length acc) f")
    case None
    with Cons show ?thesis by simp
  next
    case (Some s)
    then have "instanceNumber s = Some (int (length acc))" by (rule fileSliceRobust_instanceNumber)
    with Cons.prems have "map instanceNumber (acc @ [s])
        = map (\<lambda>i. Some (int i)) [0 ..< length (acc @ [s])]" by simp
    from Cons.IH [OF this] Some show ?thesis by simp
  qed
qed

lemma lastResort_instanceNumbers:
  assumes "map instanceNumber acc = map (\<lambda>i. Some (int i)) [0 ..< length acc]"
  shows "map instanceNumber (lastResort files acc)
           = map (\<lambda>i. Some (int i)) [0 ..< length (lastResort files acc)]"
  using assms
proof (induction files arbitrary: acc)
  case Nil
  then show ?case by simp
next
  case (Cons f fs)
  show ?case
  proof (cases "lastResortSlice (length acc) f")
    case None
    with Cons show ?thesis by simp
  next
    case (Some s)
    then have "instanceNumber s = Some (int (length acc))" by (rule lastResortSlice_instanceNumber)
    with Cons.prems have "map instanceNumber (acc @ [s])
        = map (\<lambda>i. Some (int i)) [0 ..< length (acc @ [s])]" by simp
    from Cons.IH [OF this] Some show ?thesis by simp
  qed
qed

lemma recoveredSlices_instanceNumbers:
  "map instanceNumber (recoveredSlices files)
     = map (\<lambda>i. Some (int i)) [0 ..< length (recoveredSlices files)]"
proof (cases "collectSlicesRobust files [] = []")
  case True
  then have "recoveredSlices files = lastResort files []" by (simp add: recoveredSlices_def)
  then show ?thesis using lastResort_instanceNumbers [of "[]" files] by simp
next
  case False
  then have "recoveredSlices files = collectSlicesRobust files []" by (simp add: recoveredSlices_def)
  then show ?thesis using collectSlicesRobust_instanceNumbers [of "[]" files] by simp
qed

lemma orderedSlicesRobust_sort_key:
  "orderedSlicesRobust files
     = sort_key (\<lambda>s. orZero (instanceNumber s)) (recoveredSlices files)"
  unfolding orderedSlicesRobust_def
  by (rule sortBy_sort_key) (simp add: compareSlicesRobust_def)

lemma orZero_Some: "orZero (Some n) = n"
  by (simp add: orZero_def)

lemma orderedSlicesRobust_enumeration:
  "orderedSlicesRobust files = recoveredSlices files"
proof -
  let ?xs = "recoveredSlices files"
  have "map (\<lambda>s. orZero (instanceNumber s)) ?xs = map orZero (map instanceNumber ?xs)"
    by simp
  also have "\<dots> = map int [0 ..< length ?xs]"
    by (simp add: recoveredSlices_instanceNumbers orZero_Some)
  finally have "sorted (map (\<lambda>s. orZero (instanceNumber s)) ?xs)"
    by (simp add: sorted_map strict_sorted_iff sorted_wrt_map)
  then show ?thesis
    by (simp add: orderedSlicesRobust_sort_key sort_key_id_if_sorted)
qed


lemma lastResortSlice_data:
  assumes "lastResortSlice n f = Some s" and "contents f = Some bytes"
  shows "sliceRows s * sliceColumns s \<le> length bytes
       \<and> data s = \<lparr>kind = Uint8Array, elems = map int (take (sliceRows s * sliceColumns s) bytes)\<rparr>
       \<and> fileName s = name f"
proof -
  from assms obtain w h pixels where
    f: "find (\<lambda>(w, h, pixels). length bytes \<ge> pixels) commonDims = Some (w, h, pixels)"
    and s: "s = \<lparr>data = \<lparr>kind = Uint8Array, elems = map int (take pixels bytes)\<rparr>,
                 sliceRows = h, sliceColumns = w,
                 instanceNumber = Some (int n), fileName = name f\<rparr>"
    by (auto simp: lastResortSlice_def split: option.splits)
  from f have "pixels = h * w" "pixels \<le> length bytes"
    by (auto simp: commonDims_def split: if_splits)
  with s show ?thesis by simp
qed

lemma toElem_Uint8_id: "0 \<le> x \<Longrightarrow> x < 256 \<Longrightarrow> toElem Uint8Array x = x"
  by (simp add: toElem_def)

lemma map_toElem_Uint8_id:
  "\<forall>x\<in>set xs. 0 \<le> x \<and> x < 256 \<Longrightarrow> map (toElem Uint8Array) xs = xs"
  by (induction xs) (simp_all add: toElem_Uint8_id)

text \<open>
  What either first pass stores for a file: the record of dicom-parser-robust.js is
  that of dicom-parser.js but for the instance number.
\<close>

lemma stored_record:
  assumes "fileSlice f = Some s \<or> fileSliceRobust n f = Some s"
    and "parsed f = Some d" and "pixelData d = Some px"
  shows "sliceRows s = rows d \<and> sliceColumns s = columns d \<and> fileName s = name f
       \<and> (rows d * columns d \<le> length (elems px) \<longrightarrow>
            data s = \<lparr>kind = kind px, elems = take (rows d * columns d) (elems px)\<rparr>)
       \<and> (length (elems px) < rows d * columns d \<longrightarrow>
            100 < length (elems px)
            \<and> data s = \<lparr>kind = Uint8Array,
                        elems = map (toElem Uint8Array) (elems px)
                                  @ replicate (rows d * columns d - length (elems px)) 0\<rparr>)"
proof -
  from assms(1) obtain s0 where s0: "fileSlice f = Some s0"
    and eq: "data s = data s0" "sliceRows s = sliceRows s0" "sliceColumns s = sliceColumns s0"
      "fileName s = fileName s0"
    by (auto simp: fileSliceRobust_fileSlice)
  show ?thesis
  proof (rule fileSlice_Some_cases [OF s0])
    fix d' px'
    assume "parsed f = Some d'" "pixelData d' = Some px'"
      and r: "sliceRows s0 = rows d'" "sliceColumns s0 = columns d'" "fileName s0 = name f"
      and t: "rows d' * columns d' \<le> length (elems px') \<Longrightarrow>
       data s0 = \<lparr>kind = kind px', elems = take (rows d' * columns d') (elems px')\<rparr>"
      and p: "length (elems px') < rows d' * columns d' \<Longrightarrow>
       100 < length (elems px') \<and>
       data s0 = \<lparr>kind = Uint8Array,
                 elems = map (toElem Uint8Array) (elems px')
                           @ replicate (rows d' * columns d' - length (elems px')) 0\<rparr>"
    with assms(2,3) have "d' = d" "px' = px" by simp_all
    with r t p eq show ?thesis by simp
  qed
qed

subsection \<open>The claims about the assembly pipeline\<close>

text \<open>
  Claim C1. Whenever at least one file of the batch is accepted, the volume that
  \<open>processDicomFolder\<close> returns has a flat data sequence of exactly
  width * height * depth elements, where width and height are the columns and rows of
  the first slice in sorted order and depth is the number of accepted files. The volume
  is returned unless a 16-bit slice is present and the field has more elements than the
  engine accepts arguments; then the spread call throws and there is no volume.
\<close>

theorem volume_sample_count:
  assumes "\<exists>f\<in>set files. fileSlice f \<noteq> None"
  shows "(\<not> (is16Bit (orderedSlices eng files)
             \<and> argumentLimit eng <
                 sliceColumns (hd (orderedSlices eng files)) * sliceRows (hd (orderedSlices eng files))
                   * length (filter (\<lambda>f. fileSlice f \<noteq> None) files))
          \<longrightarrow> (\<exists>v. processDicomFolder eng files = Inr v
                \<and> dimensions v = (sliceColumns (hd (orderedSlices eng files)),
                                  sliceRows (hd (orderedSlices eng files)),
                                  length (filter (\<lambda>f. fileSlice f \<noteq> None) files))
                \<and> length (voxels v) =
                    sliceColumns (hd (orderedSlices eng files)) * sliceRows (hd (orderedSlices eng files))
                      * length (filter (\<lambda>f. fileSlice f \<noteq> None) files)))
       \<and> (is16Bit (orderedSlices eng files)
             \<and> argumentLimit eng <
                 sliceColumns (hd (orderedSlices eng files)) * sliceRows (hd (orderedSlices eng files))
                   * length (filter (\<lambda>f. fileSlice f \<noteq> None) files)
          \<longrightarrow> processDicomFolder eng files = Inl SpreadRangeError)"
proof -
  let ?ord = "orderedSlices eng files"
  let ?n = "sliceColumns (hd ?ord) * sliceRows (hd ?ord)
              * length (filter (\<lambda>f. fileSlice f \<noteq> None) files)"
  from assms have ne: "collectSlices files [] \<noteq> []" by (simp add: accepted_iff)
  have depth: "length ?ord = length (filter (\<lambda>f. fileSlice f \<noteq> None) files)"
    by (simp add: orderedSlices_def length_collectSlices)
  have len: "length (assembledField ?ord) = ?n"
    by (simp add: length_assembledField depth mult.commute)
  show ?thesis
  proof (intro conjI impI)
    assume over: "is16Bit ?ord \<and> argumentLimit eng < ?n"
    then show "processDicomFolder eng files = Inl SpreadRangeError"
      using ne len by (simp add: processDicomFolder_outcome)
  next
    assume within: "\<not> (is16Bit ?ord \<and> argumentLimit eng < ?n)"
    define v where "v = \<lparr>voxels = (if is16Bit ?ord then normalizedVolume (assembledField ?ord)
                                     else assembledField ?ord),
                  dimensions = (sliceColumns (hd ?ord), sliceRows (hd ?ord), length ?ord)\<rparr>"
    have run: "processDicomFolder eng files = Inr v"
      using ne within len by (auto simp: processDicomFolder_outcome v_def)
    have vl: "length (voxels v) = ?n"
      using len by (simp add: v_def)
    have vd: "dimensions v = (sliceColumns (hd ?ord), sliceRows (hd ?ord),
                              length (filter (\<lambda>f. fileSlice f \<noteq> None) files))"
      using depth by (simp add: v_def)
    from run vd vl
    show "\<exists>v. processDicomFolder eng files = Inr v
            \<and> dimensions v = (sliceColumns (hd ?ord), sliceRows (hd ?ord),
                              length (filter (\<lambda>f. fileSlice f \<noteq> None) files))
            \<and> length (voxels v) = ?n"
      by blast
  qed
qed

theorem volume_sample_count_witness:
  "(\<exists>f\<in>set [scenarioFile ''s2'' (Some 2) 2 2 Uint8Array [5, 6, 7, 8, 9],
               droppedFile,
               scenarioFile ''s1'' (Some 1) 1 3 Uint8Array [1, 2, 3]]. fileSlice f \<noteq> None)
   \<and> \<not> is16Bit (orderedSlices exampleEngine
        [scenarioFile ''s2'' (Some 2) 2 2 Uint8Array [5, 6, 7, 8, 9],
         droppedFile,
         scenarioFile ''s1'' (Some 1) 1 3 Uint8Array [1, 2, 3]])
   \<and> processDicomFolder exampleEngine
        [scenarioFile ''s2'' (Some 2) 2 2 Uint8Array [5, 6, 7, 8, 9],
         droppedFile,
         scenarioFile ''s1'' (Some 1) 1 3 Uint8Array [1, 2, 3]]
       = Inr \<lparr>voxels = [1, 2, 3, 5, 6, 7], dimensions = (3, 1, 2)\<rparr>"
proof -
  let ?files = "[scenarioFile ''s2'' (Some 2) 2 2 Uint8Array [5, 6, 7, 8, 9],
                 droppedFile,
                 scenarioFile ''s1'' (Some 1) 1 3 Uint8Array [1, 2, 3]]"
  have h: "\<exists>f\<in>set ?files. fileSlice f \<noteq> None"
    by (simp add: fileSlice_scenario)
  have d: "fileSlice droppedFile = None"
    by (simp add: fileSlice_def sliceOfFile_def droppedFile_def)
  have b: "\<not> is16Bit (orderedSlices exampleEngine ?files)"
    by (simp add: orderedSlices_def fileSlice_scenario d sortBy_def compareSlices_def
        orZero_def is16Bit_def)
  have run: "processDicomFolder exampleEngine ?files
               = Inr \<lparr>voxels = [1, 2, 3, 5, 6, 7], dimensions = (3, 1, 2)\<rparr>"
    by (simp add: processDicomFolder_def Let_def fileSlice_scenario d sortBy_def compareSlices_def
        orZero_def assembledField_def assembleInto_def volumeKind_def is16Bit_def isSigned_def
        fillVolume_def fillSlice_def storeAt_def newArray_def toElem_def
        upt_rec [of _ "numeral _"] upt_rec [of _ "Suc _"] numeral_2_eq_2 numeral_3_eq_3)
  from volume_sample_count [OF h, of exampleEngine, THEN conjunct1] b obtain v where
    "processDicomFolder exampleEngine ?files = Inr v"
    "length (voxels v) =
       sliceColumns (hd (orderedSlices exampleEngine ?files))
         * sliceRows (hd (orderedSlices exampleEngine ?files))
         * length (filter (\<lambda>f. fileSlice f \<noteq> None) ?files)"
    by blast
  with h b run show ?thesis by simp
qed

text \<open>
  Claim C2. When a 16-bit slice is present, the returned voxels are the assembled field
  mapped once through \<open>round(((v - min) / range) * 255)\<close>, with min and max taken over
  the whole assembled field and the range replaced by 1 when max = min; every result
  lies in 0..255 (the store into the 8-bit array does not wrap); and with min = -200 and
  max = 800 a voxel of 300 becomes 128. The arithmetic is on exact reals.
\<close>

theorem global_normalization:
  assumes "is16Bit (orderedSlices eng files)" and "processDicomFolder eng files = Inr v"
  shows "(let field = assembledField (orderedSlices eng files);
              mn = Min (set field); mx = Max (set field);
              rng = (if mx - mn = 0 then 1 else mx - mn)
          in voxels v = map (\<lambda>x. mathRound ((real_of_int (x - mn) / real_of_int rng) * 255)) field
           \<and> (\<forall>i < length field. 0 \<le> voxels v ! i \<and> voxels v ! i \<le> 255)
           \<and> (\<forall>i < length field. mn = - 200 \<and> mx = 800 \<and> field ! i = 300 \<longrightarrow> voxels v ! i = 128))"
proof -
  define field where "field = assembledField (orderedSlices eng files)"
  have vox: "voxels v = normalizedVolume field"
    using assms by (auto simp: processDicomFolder_outcome field_def split: if_splits)
  show ?thesis
  proof (cases "field = []")
    case True
    with vox show ?thesis by (simp add: field_def [symmetric] normalizedVolume_def Let_def)
  next
    case False
    have mn: "minVal field = Min (set field)" and mx: "maxVal field = Max (set field)"
      using False by (simp_all add: minVal_Min maxVal_Max)
    have rng: "rangeOf field = (if Max (set field) - Min (set field) = 0 then 1 else Max (set field) - Min (set field))"
      by (simp add: rangeOf_def mn mx)
    have m: "voxels v = map (\<lambda>x. mathRound ((real_of_int (x - minVal field) / real_of_int (rangeOf field)) * 255)) field"
      using vox by (simp add: normalizedVolume_map)
    have bnd: "0 \<le> voxels v ! i \<and> voxels v ! i \<le> 255" if "i < length field" for i
    proof -
      have x: "field ! i \<in> set field" using that by simp
      have b: "0 \<le> field ! i - minVal field" "field ! i - minVal field \<le> rangeOf field"
        using rangeOf_bound [OF x] by simp_all
      from mathRound_scaled_bounds [OF b rangeOf_pos [OF False]] that
      show ?thesis by (simp add: m)
    qed
    have ex: "voxels v ! i = 128"
      if "i < length field" "Min (set field) = - 200" "Max (set field) = 800" "field ! i = 300" for i
    proof -
      have "rangeOf field = 1000" using that by (simp add: rng)
      moreover have "minVal field = - 200" using that by (simp add: mn)
      ultimately show ?thesis using that by (simp add: m mathRound_def)
    qed
    show ?thesis
      unfolding Let_def field_def [symmetric]
      using m bnd ex by (simp add: mn rng)
  qed
qed

theorem global_normalization_witness:
  "is16Bit (orderedSlices exampleEngine
       [scenarioFile ''s2'' (Some 2) 2 2 Uint8Array [10, 20, 30, 40],
        scenarioFile ''s1'' (Some 1) 2 2 Int16Array [- 200, 800, 300, 0]])
   \<and> assembledField (orderedSlices exampleEngine
       [scenarioFile ''s2'' (Some 2) 2 2 Uint8Array [10, 20, 30, 40],
        scenarioFile ''s1'' (Some 1) 2 2 Int16Array [- 200, 800, 300, 0]])
       = [- 200, 800, 300, 0, 10, 20, 30, 40]
   \<and> processDicomFolder exampleEngine
       [scenarioFile ''s2'' (Some 2) 2 2 Uint8Array [10, 20, 30, 40],
        scenarioFile ''s1'' (Some 1) 2 2 Int16Array [- 200, 800, 300, 0]]
       = Inr \<lparr>voxels = [0, 255, 128, 51, 54, 56, 59, 61], dimensions = (2, 2, 2)\<rparr>"
proof -
  let ?files = "[scenarioFile ''s2'' (Some 2) 2 2 Uint8Array [10, 20, 30, 40],
                 scenarioFile ''s1'' (Some 1) 2 2 Int16Array [- 200, 800, 300, 0]]"
  let ?v = "\<lparr>voxels = [0, 255, 128, 51, 54, 56, 59, 61], dimensions = (2, 2, 2)\<rparr>"
  have ord: "orderedSlices exampleEngine ?files =
      [\<lparr>data = \<lparr>kind = Int16Array, elems = [- 200, 800, 300, 0]\<rparr>, sliceRows = 2, sliceColumns = 2,
        instanceNumber = Some 1, fileName = ''s1''\<rparr>,
       \<lparr>data = \<lparr>kind = Uint8Array, elems = [10, 20, 30, 40]\<rparr>, sliceRows = 2, sliceColumns = 2,
        instanceNumber = Some 2, fileName = ''s2''\<rparr>]"
    by (simp add: orderedSlices_def fileSlice_scenario sortBy_def compareSlices_def orZero_def)
  have h: "is16Bit (orderedSlices exampleEngine ?files)"
    by (simp add: ord is16Bit_def)
  have field: "assembledField (orderedSlices exampleEngine ?files) = [- 200, 800, 300, 0, 10, 20, 30, 40]"
    unfolding ord
    by (simp add: assembledField_def assembleInto_def volumeKind_def is16Bit_def isSigned_def
        Let_def fillVolume_def fillSlice_def storeAt_def newArray_def toElem_def
        upt_rec [of _ "numeral _"] upt_rec [of _ "Suc _"] numeral_2_eq_2)
  have mm: "Min (set [- 200, 800, 300, 0, 10, 20, 30, 40 :: int]) = - 200"
           "Max (set [- 200, 800, 300, 0, 10, 20, 30, 40 :: int]) = 800"
    by simp_all
  have ne: "collectSlices ?files [] \<noteq> []"
    by (simp add: fileSlice_scenario)
  have lim: "argumentLimit exampleEngine = 65536"
    by (simp add: exampleEngine_def)
  have run: "processDicomFolder exampleEngine ?files = Inr (the_volume)" if "the_volume = ?v" for the_volume
    unfolding processDicomFolder_outcome
    using h field ne lim that
    by (simp add: normalizedVolume_def normalizeVoxel_def
        mathRound_def toElem_def minVal_def maxVal_def rangeOf_def ord)
  from global_normalization [OF h run [OF refl]]
  have "voxels ?v ! 2 = 128"
    unfolding Let_def field mm by simp
  with h field run [OF refl] show ?thesis by simp
qed

section \<open>Properties of the atlas\<close>

lemma slicesPerRowOf_pos: "0 < depth \<Longrightarrow> 0 < slicesPerRowOf depth"
proof -
  assume "0 < depth"
  then have "0 < sqrt (real depth)" by simp
  then have "0 < \<lceil>sqrt (real depth)\<rceil>" by (simp add: ceiling_less_iff) 
  then show ?thesis by (simp add: slicesPerRowOf_def)
qed

lemma slicesPerRowOf_eqI:
  assumes "(k - 1) * (k - 1) < depth" "depth \<le> k * k" "0 < k"
  shows "slicesPerRowOf depth = k"
proof -
  have up: "sqrt (real depth) \<le> real k"
  proof -
    have "real depth \<le> (real k)\<^sup>2" using assms(2)
      by (metis of_nat_le_iff of_nat_mult power2_eq_square)
    then show ?thesis by (simp add: real_le_lsqrt)
  qed
  have lo: "real k - 1 < sqrt (real depth)"
  proof -
    have "(real (k - 1))\<^sup>2 < real depth" using assms(1)
      by (metis of_nat_less_iff of_nat_mult power2_eq_square)
    then have "real (k - 1) < sqrt (real depth)" by (simp add: real_less_rsqrt)
    then show ?thesis using assms(3) by (simp add: of_nat_diff)
  qed
  have "\<lceil>sqrt (real depth)\<rceil> = int k"
    using up lo by (intro ceiling_unique) simp_all
  then show ?thesis by (simp add: slicesPerRowOf_def)
qed

lemma depth_le_square: "depth \<le> slicesPerRowOf depth * slicesPerRowOf depth"
proof -
  have "sqrt (real depth) \<le> real_of_int \<lceil>sqrt (real depth)\<rceil>" by simp
  also have "\<dots> = real (slicesPerRowOf depth)"
    by (simp add: slicesPerRowOf_def)
  finally have "sqrt (real depth) \<le> real (slicesPerRowOf depth)" .
  then have "real depth \<le> (real (slicesPerRowOf depth))\<^sup>2"
    by (rule sqrt_le_D)
  then show ?thesis
    by (metis of_nat_le_iff of_nat_mult power2_eq_square)
qed

lemma depth_le_grid:
  assumes "0 < depth"
  shows "depth \<le> atlasRowsOf depth * slicesPerRowOf depth"
proof -
  let ?s = "slicesPerRowOf depth"
  have s: "0 < ?s" using assms by (rule slicesPerRowOf_pos)
  have "real depth / real ?s \<le> real_of_int \<lceil>real depth / real ?s\<rceil>" by simp
  also have "\<dots> = real (atlasRowsOf depth)"
    by (simp add: atlasRowsOf_def)
  finally have "real depth / real ?s \<le> real (atlasRowsOf depth)" .
  then have "real depth \<le> real (atlasRowsOf depth) * real ?s"
    using s by (simp add: divide_le_eq)
  then show ?thesis by (metis of_nat_le_iff of_nat_mult)
qed

lemma fold_product:
  "fold (\<lambda>(a, b). f a b) (List.product xs ys) = fold (\<lambda>a. fold (f a) ys) xs"
  by (induction xs) (simp_all add: fold_map comp_def)

lemma fold_store_length:
  "length (fold (\<lambda>p t. if ok p t then t[key p := val p] else t) ps t) = length t"
  by (induction ps arbitrary: t) simp_all

lemma fold_store_other:
  "i \<notin> key ` set ps \<Longrightarrow>
   fold (\<lambda>p t. if ok p t then t[key p := val p] else t) ps t ! i = t ! i"
  by (induction ps arbitrary: t) auto

lemma fold_store_hit:
  assumes "inj_on key (set ps)" "p \<in> set ps" "key p < length t"
    and "\<And>q u. q \<in> set ps \<Longrightarrow> length u = length t \<Longrightarrow> ok q u"
  shows "fold (\<lambda>p t. if ok p t then t[key p := val p] else t) ps t ! key p = val p"
  using assms
proof (induction ps arbitrary: t)
  case Nil
  then show ?case by simp
next
  case (Cons a rest)
  let ?st = "\<lambda>p t. if ok p t then t[key p := val p] else t"
  have ok_a: "ok a t" using Cons.prems(4) [of a t] by simp
  have len: "length (?st a t) = length t" by simp
  show ?case
  proof (cases "p \<in> set rest")
    case True
    have "fold ?st rest (?st a t) ! key p = val p"
    proof (rule Cons.IH)
      show "inj_on key (set rest)" using Cons.prems(1) by (simp add: inj_on_def)
      show "p \<in> set rest" by (rule True)
      show "key p < length (?st a t)" using Cons.prems(3) by simp
      show "ok q u" if "q \<in> set rest" "length u = length (?st a t)" for q u
        using that Cons.prems(4) [of q u] by simp
    qed
    then show ?thesis by simp
  next
    case False
    with Cons.prems(2) have pa: "p = a" by simp
    have "key p \<notin> key ` set rest"
    proof
      assume "key p \<in> key ` set rest"
      then obtain q where q: "q \<in> set rest" "key q = key p" by auto
      with Cons.prems(1) pa have "q = p" by (auto simp: inj_on_def)
      with q False show False by simp
    qed
    then have "fold ?st rest (?st a t) ! key p = ?st a t ! key p"
      by (rule fold_store_other)
    also have "\<dots> = val p" using ok_a pa Cons.prems(3) by simp
    finally show ?thesis by simp
  qed
qed

text \<open>The texel index of (z, y, x), and why it determines (z, y, x).\<close>

lemma div_mod_decode:
  fixes a b n :: nat
  assumes "b < n"
  shows "(a * n + b) div n = a" "(a * n + b) mod n = b"
  using assms by simp_all

lemma texIdx_inj:
  fixes W H s :: nat
  assumes "x < W" "x' < W" "y < H" "y' < H" "0 < s"
    and eq: "((z div s) * H + y) * (s * W) + ((z mod s) * W + x)
           = ((z' div s) * H + y') * (s * W) + ((z' mod s) * W + x')"
  shows "z = z' \<and> y = y' \<and> x = x'"
proof -
  have inner: "(c * W + u) < s * W" if "c < s" "u < W" for c u
  proof -
    have "c * W + u < c * W + W" using that by simp
    also have "\<dots> = (c + 1) * W" by simp
    also have "\<dots> \<le> s * W" using that by (intro mult_le_mono1) simp
    finally show ?thesis .
  qed
  have c: "z mod s < s" "z' mod s < s" using assms(5) by simp_all
  have i1: "(z mod s) * W + x < s * W" and i2: "(z' mod s) * W + x' < s * W"
    using inner c assms by simp_all
  from eq have "(((z div s) * H + y) * (s * W) + ((z mod s) * W + x)) div (s * W)
      = (((z' div s) * H + y') * (s * W) + ((z' mod s) * W + x')) div (s * W)" by simp
  then have rows: "(z div s) * H + y = (z' div s) * H + y'"
    unfolding div_mod_decode(1) [OF i1] div_mod_decode(1) [OF i2] .
  from eq have "(((z div s) * H + y) * (s * W) + ((z mod s) * W + x)) mod (s * W)
      = (((z' div s) * H + y') * (s * W) + ((z' mod s) * W + x')) mod (s * W)" by simp
  then have cols: "(z mod s) * W + x = (z' mod s) * W + x'"
    unfolding div_mod_decode(2) [OF i1] div_mod_decode(2) [OF i2] .
  from rows have "((z div s) * H + y) div H = ((z' div s) * H + y') div H"
    and "((z div s) * H + y) mod H = ((z' div s) * H + y') mod H" by simp_all
  then have r: "z div s = z' div s" and y: "y = y'"
    unfolding div_mod_decode(1) [OF assms(3)] div_mod_decode(1) [OF assms(4)]
      div_mod_decode(2) [OF assms(3)] div_mod_decode(2) [OF assms(4)] by simp_all
  from cols have "((z mod s) * W + x) div W = ((z' mod s) * W + x') div W"
    and "((z mod s) * W + x) mod W = ((z' mod s) * W + x') mod W" by simp_all
  then have m: "z mod s = z' mod s" and x: "x = x'"
    unfolding div_mod_decode(1) [OF assms(1)] div_mod_decode(1) [OF assms(2)]
      div_mod_decode(2) [OF assms(1)] div_mod_decode(2) [OF assms(2)] by simp_all
  have "z = (z div s) * s + z mod s" by simp
  also have "\<dots> = (z' div s) * s + z' mod s" using r m by simp
  also have "\<dots> = z'" by simp
  finally show ?thesis using y x by simp
qed

lemma texIdx_bound:
  fixes W H s R D :: nat
  assumes "x < W" "y < H" "z < D" "0 < s" "D \<le> R * s"
  shows "((z div s) * H + y) * (s * W) + ((z mod s) * W + x) < (s * W) * (R * H)"
proof -
  have "z < R * s" using assms by simp
  then have r: "z div s < R" using assms(4) by (simp add: less_mult_imp_div_less)
  have "(z mod s) * W + x < (z mod s) * W + W" using assms by simp
  also have "\<dots> = (z mod s + 1) * W" by simp
  also have "\<dots> \<le> s * W" using assms(4) by (intro mult_le_mono1) (simp add: Suc_leI)
  finally have inner: "(z mod s) * W + x < s * W" .
  have "(z div s) * H + y < (z div s) * H + H" using assms by simp
  also have "\<dots> = (z div s + 1) * H" by simp
  also have "\<dots> \<le> R * H" using r by (intro mult_le_mono1) simp
  finally have outer: "(z div s) * H + y + 1 \<le> R * H" by simp
  have "((z div s) * H + y) * (s * W) + ((z mod s) * W + x)
          < ((z div s) * H + y) * (s * W) + s * W" using inner by simp
  also have "\<dots> = ((z div s) * H + y + 1) * (s * W)" by simp
  also have "\<dots> \<le> (R * H) * (s * W)" using outer by (intro mult_le_mono1)
  finally show ?thesis by (simp add: mult.commute)
qed

lemma volumeIdx_bound:
  fixes W H D :: nat
  assumes "x < W" "y < H" "z < D"
  shows "z * W * H + y * W + x < W * H * D"
proof -
  have "y * W + x < y * W + W" using assms by simp
  also have "\<dots> = (y + 1) * W" by simp
  also have "\<dots> \<le> H * W" using assms by (intro mult_le_mono1) simp
  finally have "z * (W * H) + (y * W + x) < z * (W * H) + W * H" by (simp add: mult.commute)
  also have "\<dots> = (z + 1) * (W * H)" by simp
  also have "\<dots> \<le> D * (W * H)" using assms by (intro mult_le_mono1) simp
  finally show ?thesis by (simp add: ac_simps)
qed

lemma fillTexture_fold:
  "fillTexture W H D s tw vd t =
     fold (\<lambda>p t. if (case p of (z, y, x) \<Rightarrow> z * W * H + y * W + x < length vd
                       \<and> ((z div s) * H + y) * tw + ((z mod s) * W + x) < length t)
                 then t[(case p of (z, y, x) \<Rightarrow> ((z div s) * H + y) * tw + ((z mod s) * W + x))
                          := (case p of (z, y, x) \<Rightarrow> clampByte (vd ! (z * W * H + y * W + x)))]
                 else t)
       (List.product [0 ..< D] (List.product [0 ..< H] [0 ..< W])) t"
proof -
  let ?st = "\<lambda>z y x t. storeTexel W H s tw vd z y x t"
  have "fillTexture W H D s tw vd t
      = fold (\<lambda>z. fold (\<lambda>y. fold (?st z y) [0 ..< W]) [0 ..< H]) [0 ..< D] t"
    by (simp add: fillTexture_def)
  also have "\<dots> = fold (\<lambda>z. fold (\<lambda>(y, x). ?st z y x) (List.product [0 ..< H] [0 ..< W])) [0 ..< D] t"
    by (simp add: fold_product)
  also have "\<dots> = fold (\<lambda>(z, yx). (\<lambda>(y, x). ?st z y x) yx)
                      (List.product [0 ..< D] (List.product [0 ..< H] [0 ..< W])) t"
    by (simp add: fold_product)
  also have "\<dots> = fold (\<lambda>p t. if (case p of (z, y, x) \<Rightarrow> z * W * H + y * W + x < length vd
                       \<and> ((z div s) * H + y) * tw + ((z mod s) * W + x) < length t)
                 then t[(case p of (z, y, x) \<Rightarrow> ((z div s) * H + y) * tw + ((z mod s) * W + x))
                          := (case p of (z, y, x) \<Rightarrow> clampByte (vd ! (z * W * H + y * W + x)))]
                 else t)
       (List.product [0 ..< D] (List.product [0 ..< H] [0 ..< W])) t"
    by (rule arg_cong [where f = "\<lambda>f. fold f _ t"])
       (auto simp: fun_eq_iff storeTexel_def Let_def)
  finally show ?thesis .
qed

lemma fillTexture_length [simp]: "length (fillTexture W H D s tw vd t) = length t"
  unfolding fillTexture_fold by (rule fold_store_length)

lemma fillTexture_hit:
  assumes "z < D" "y < H" "x < W" "0 < s" "D \<le> R * s" "length vd = W * H * D"
    and "length t = (s * W) * (R * H)"
  shows "fillTexture W H D s (s * W) vd t ! (((z div s) * H + y) * (s * W) + ((z mod s) * W + x))
           = clampByte (vd ! (z * W * H + y * W + x))"
proof -
  let ?key = "\<lambda>p. case p of (z, y, x) \<Rightarrow> ((z div s) * H + y) * (s * W) + ((z mod s) * W + x)"
  let ?val = "\<lambda>p. case p of (z, y, x) \<Rightarrow> clampByte (vd ! (z * W * H + y * W + x))"
  let ?ok = "\<lambda>p t. case p of (z, y, x) \<Rightarrow> z * W * H + y * W + x < length vd
                       \<and> ((z div s) * H + y) * (s * W) + ((z mod s) * W + x) < length t"
  let ?ps = "List.product [0 ..< D] (List.product [0 ..< H] [0 ..< W])"
  have inj: "inj_on ?key (set ?ps)"
    unfolding inj_on_def
  proof (intro ballI impI)
    fix p q assume p: "p \<in> set ?ps" and q: "q \<in> set ?ps" and e: "?key p = ?key q"
    obtain z1 y1 x1 where p': "p = (z1, y1, x1)" by (cases p) auto
    obtain z2 y2 x2 where q': "q = (z2, y2, x2)" by (cases q) auto
    from p q p' q' have b: "x1 < W" "x2 < W" "y1 < H" "y2 < H" by auto
    from e p' q' have "((z1 div s) * H + y1) * (s * W) + ((z1 mod s) * W + x1)
           = ((z2 div s) * H + y2) * (s * W) + ((z2 mod s) * W + x2)" by simp
    from texIdx_inj [OF b assms(4) this] show "p = q" by (simp add: p' q')
  qed
  have mem: "(z, y, x) \<in> set ?ps" using assms by simp
  have kb: "?key (z, y, x) < length t"
    using texIdx_bound [OF assms(3) assms(2) assms(1) assms(4) assms(5)] assms(7) by simp
  have ok: "?ok q u" if "q \<in> set ?ps" "length u = length t" for q u
  proof -
    obtain z2 y2 x2 where q': "q = (z2, y2, x2)" by (cases q) auto
    with that have b: "x2 < W" "y2 < H" "z2 < D" by auto
    from volumeIdx_bound [OF b] texIdx_bound [OF b assms(4) assms(5)] that assms(6,7)
    show ?thesis by (simp add: q')
  qed
  have "fold (\<lambda>p t. if ?ok p t then t[?key p := ?val p] else t) ?ps t ! ?key (z, y, x) = ?val (z, y, x)"
    by (rule fold_store_hit [OF inj mem kb ok])
  then show ?thesis unfolding fillTexture_fold by simp
qed

lemma fillTexture_miss:
  assumes "\<forall>z<D. \<forall>y<H. \<forall>x<W. i \<noteq> ((z div s) * H + y) * tw + ((z mod s) * W + x)"
  shows "fillTexture W H D s tw vd t ! i = t ! i"
proof -
  let ?key = "\<lambda>p. case p of (z, y, x) \<Rightarrow> ((z div s) * H + y) * tw + ((z mod s) * W + x)"
  let ?ps = "List.product [0 ..< D] (List.product [0 ..< H] [0 ..< W])"
  have "i \<notin> ?key ` set ?ps"
  proof
    assume "i \<in> ?key ` set ?ps"
    then obtain z y x where "z < D" "y < H" "x < W"
      "i = ((z div s) * H + y) * tw + ((z mod s) * W + x)" by auto
    with assms show False by blast
  qed
  then show ?thesis unfolding fillTexture_fold by (rule fold_store_other)
qed

lemma layout_4_slices: "slicesPerRowOf 4 = 2 \<and> atlasRowsOf 4 = 2"
proof -
  have s: "slicesPerRowOf 4 = 2" by (rule slicesPerRowOf_eqI) simp_all
  then show ?thesis by (simp add: atlasRowsOf_def)
qed

text \<open>
  Claim C5. For a volume of depth D > 0 with slices of width W and height H, whose data
  has W * H * D samples, \<open>loadVolume\<close> builds an atlas that is slicesPerRow * W wide and
  rows * H high with slicesPerRow = ceil(sqrt D) and rows = ceil(D / slicesPerRow); the
  sample (x, y) of slice z lies at texel (column (z mod slicesPerRow) * W + x, row
  (z div slicesPerRow) * H + y), clamped to 0..255 (the identity on 8-bit samples); and
  every texel that is not such a position is zero.
\<close>

theorem atlas_packing:
  assumes "0 < D" and "dimensions v = (W, H, D)" and "length (voxels v) = W * H * D"
  shows "\<exists>tex layout. loadVolume v = Some (tex, layout) \<and>
         (let slicesPerRow = slicesPerRowOf D; rows = atlasRowsOf D
          in int slicesPerRow = \<lceil>sqrt (real D)\<rceil>
           \<and> int rows = \<lceil>real D / real slicesPerRow\<rceil>
           \<and> layoutWidth layout = slicesPerRow * W
           \<and> layoutHeight layout = rows * H
           \<and> length tex = (slicesPerRow * W) * (rows * H)
           \<and> (\<forall>z<D. \<forall>y<H. \<forall>x<W.
                 tex ! (((z div slicesPerRow) * H + y) * (slicesPerRow * W)
                         + ((z mod slicesPerRow) * W + x))
                   = clampByte (voxels v ! (z * W * H + y * W + x)))
           \<and> (\<forall>i < length tex.
                 (\<forall>z<D. \<forall>y<H. \<forall>x<W.
                    i \<noteq> ((z div slicesPerRow) * H + y) * (slicesPerRow * W)
                          + ((z mod slicesPerRow) * W + x))
                 \<longrightarrow> tex ! i = 0))"
proof -
  let ?s = "slicesPerRowOf D" and ?r = "atlasRowsOf D"
  let ?t0 = "replicate ((?s * W) * (?r * H)) (0 :: int)"
  let ?tex = "fillTexture W H D ?s (?s * W) (voxels v) ?t0"
  let ?layout = "\<lparr>layoutWidth = ?s * W, layoutHeight = ?r * H, layoutSlices = D,
                  layoutVolumeSize = (W, H, D)\<rparr>"
  have run: "loadVolume v = Some (?tex, ?layout)"
    using assms(2,3) by (simp add: loadVolume_def packAtlas_def Let_def)
  have s: "0 < ?s" using assms(1) by (rule slicesPerRowOf_pos)
  have grid: "D \<le> ?r * ?s" using assms(1) by (rule depth_le_grid)
  have "0 \<le> \<lceil>sqrt (real D)\<rceil>"
    using ceiling_mono [of 0 "sqrt (real D)"] by simp
  then have c1: "int ?s = \<lceil>sqrt (real D)\<rceil>" by (simp add: slicesPerRowOf_def)
  have "0 \<le> \<lceil>real D / real ?s\<rceil>"
    using ceiling_mono [of 0 "real D / real ?s"] by simp
  then have c2: "int ?r = \<lceil>real D / real ?s\<rceil>"
    by (simp add: atlasRowsOf_def)
  have len: "length ?tex = (?s * W) * (?r * H)" by simp
  have hit: "?tex ! (((z div ?s) * H + y) * (?s * W) + ((z mod ?s) * W + x))
                   = clampByte (voxels v ! (z * W * H + y * W + x))"
    if "z < D" "y < H" "x < W" for z y x
    by (rule fillTexture_hit [OF that s grid assms(3)]) simp
  have miss: "?tex ! i = 0"
    if "i < length ?tex"
      "\<forall>z<D. \<forall>y<H. \<forall>x<W. i \<noteq> ((z div ?s) * H + y) * (?s * W) + ((z mod ?s) * W + x)" for i
  proof -
    have "?tex ! i = ?t0 ! i"
      by (rule fillTexture_miss [OF that(2)])
    also have "\<dots> = 0" using that(1) by simp
    finally show ?thesis .
  qed
  have "(let slicesPerRow = ?s; rows = ?r
          in int slicesPerRow = \<lceil>sqrt (real D)\<rceil>
           \<and> int rows = \<lceil>real D / real slicesPerRow\<rceil>
           \<and> layoutWidth ?layout = slicesPerRow * W
           \<and> layoutHeight ?layout = rows * H
           \<and> length ?tex = (slicesPerRow * W) * (rows * H)
           \<and> (\<forall>z<D. \<forall>y<H. \<forall>x<W.
                 ?tex ! (((z div slicesPerRow) * H + y) * (slicesPerRow * W)
                         + ((z mod slicesPerRow) * W + x))
                   = clampByte (voxels v ! (z * W * H + y * W + x)))
           \<and> (\<forall>i < length ?tex.
                 (\<forall>z<D. \<forall>y<H. \<forall>x<W.
                    i \<noteq> ((z div slicesPerRow) * H + y) * (slicesPerRow * W)
                          + ((z mod slicesPerRow) * W + x))
                 \<longrightarrow> ?tex ! i = 0))"
    unfolding Let_def using c1 c2 len hit miss by simp
  with run show ?thesis by blast
qed

theorem atlas_packing_witness:
  "0 < (3 :: nat) \<and> dimensions exampleVolume = (2, 1, 3)
   \<and> length (voxels exampleVolume) = 2 * 1 * 3
   \<and> loadVolume exampleVolume =
       Some ([1, 2, 3, 4, 5, 6, 0, 0],
        \<lparr>layoutWidth = 4, layoutHeight = 2, layoutSlices = 3, layoutVolumeSize = (2, 1, 3)\<rparr>)
   \<and> [1, 2, 3, 4, 5, 6, 0, 0 :: int] ! 5 = clampByte (voxels exampleVolume ! 5)"
proof -
  have h: "0 < (3 :: nat)" "dimensions exampleVolume = (2, 1, 3)"
    "length (voxels exampleVolume) = 2 * 1 * 3"
    by (simp_all add: exampleVolume_def)
  have s: "slicesPerRowOf 3 = 2" by (rule slicesPerRowOf_eqI) simp_all
  have r: "atlasRowsOf 3 = 2" by (simp add: atlasRowsOf_def s)
  have run: "loadVolume exampleVolume =
       Some ([1, 2, 3, 4, 5, 6, 0, 0],
        \<lparr>layoutWidth = 4, layoutHeight = 2, layoutSlices = 3, layoutVolumeSize = (2, 1, 3)\<rparr>)"
  proof -
    have lv: "loadVolume exampleVolume =
       Some (fillTexture 2 1 3 2 4 [1, 2, 3, 4, 5, 6] (replicate 8 0),
        \<lparr>layoutWidth = 4, layoutHeight = 2, layoutSlices = 3, layoutVolumeSize = (2, 1, 3)\<rparr>)"
      by (simp add: loadVolume_def packAtlas_def exampleVolume_def s r Let_def)
    have ft: "fillTexture 2 1 3 2 4 [1, 2, 3, 4, 5, 6] (replicate 8 0) = [1, 2, 3, 4, 5, 6, 0, 0]"
      by (simp add: fillTexture_def storeTexel_def Let_def clampByte_def
          upt_rec [of _ "numeral _"] upt_rec [of _ "Suc _"] upt_rec [of _ 1]
          numeral_2_eq_2 numeral_3_eq_3 eval_nat_numeral)
    show ?thesis by (simp only: lv ft)
  qed
  from atlas_packing [OF h] obtain tex layout where
    lv: "loadVolume exampleVolume = Some (tex, layout)"
    and cells: "\<forall>z<3. \<forall>y<1. \<forall>x<2.
                 tex ! (((z div 2) * 1 + y) * (2 * 2) + ((z mod 2) * 2 + x))
                   = clampByte (voxels exampleVolume ! (z * 2 * 1 + y * 2 + x))"
    unfolding Let_def s r by blast
  from lv run have tex: "tex = [1, 2, 3, 4, 5, 6, 0, 0]" by simp
  from cells [rule_format, of 2 0 1]
  have c: "tex ! 5 = clampByte (voxels exampleVolume ! 5)"
    by simp
  from h run c tex show ?thesis by simp
qed

section \<open>Properties of the decoder\<close>

lemma initialOffset_total: "\<exists>off. initialOffset buf = Some off"
  by (simp add: initialOffset_def getUint8_def)

lemma parseDicom_returns: "\<exists>d. parseDicom eng buf = Inr d"
  using initialOffset_total [of buf] by (auto simp: parseDicom_def)

lemma parseDicomFixed_returns: "\<exists>d. parseDicomFixed eng buf = Inr d"
  using initialOffset_total [of buf] by (auto simp: parseDicomFixed_def)

lemma parseLoop_overrun:
  assumes "offset st + 8 < length buf"
    and "readHeader buf (offset st) = Header tag vr len valueOffset"
    and "length buf < valueOffset + len"
  shows "parseLoop eng buf st = st\<lparr>offset := valueOffset\<rparr>"
proof -
  have "parseStep eng buf st = Break (st\<lparr>offset := valueOffset\<rparr>)"
    using assms by (simp add: parseStep_def)
  then show ?thesis using assms(1) by (subst parseLoop.simps) simp
qed

lemma parseLoopFixed_overrun:
  assumes "offset st + 8 < length buf"
    and "readHeaderFixed buf (offset st) = Header tag vr len valueOffset"
    and "length buf < valueOffset + len"
  shows "parseLoopFixed eng buf st = parseLoopFixed eng buf (st\<lparr>offset := valueOffset\<rparr>)"
proof -
  have "parseStepFixed eng buf st = Continue (st\<lparr>offset := valueOffset\<rparr>)"
    using assms by (simp add: parseStepFixed_def)
  then show ?thesis using assms(1) by (subst parseLoopFixed.simps) simp
qed

lemma floorSqrtUpTo_square: "floorSqrtUpTo n m * floorSqrtUpTo n m \<le> n"
  by (induction m) simp_all

lemma floorSqrtUpTo_greatest: "k \<le> m \<Longrightarrow> k * k \<le> n \<Longrightarrow> k \<le> floorSqrtUpTo n m"
proof (induction m)
  case 0
  then show ?case by simp
next
  case (Suc m)
  show ?case
  proof (cases "k = Suc m")
    case True
    with Suc.prems show ?thesis by simp
  next
    case False
    with Suc.prems have "k \<le> m" by simp
    from Suc.IH [OF this Suc.prems(2)] Suc.prems(1) show ?thesis by simp
  qed
qed

lemma floorSqrt_bounds:
  "floorSqrt n * floorSqrt n \<le> n \<and> n < (floorSqrt n + 1) * (floorSqrt n + 1)"
proof -
  let ?f = "floorSqrt n"
  have lo: "?f * ?f \<le> n" by (simp add: floorSqrt_def floorSqrtUpTo_square)
  have hi: "n < (?f + 1) * (?f + 1)"
  proof (rule ccontr)
    assume "\<not> n < (?f + 1) * (?f + 1)"
    then have sq: "(?f + 1) * (?f + 1) \<le> n" by simp
    have "?f + 1 \<le> (?f + 1) * (?f + 1)" by simp
    with sq have "?f + 1 \<le> n" by linarith
    from floorSqrtUpTo_greatest [OF this sq] show False by (simp add: floorSqrt_def)
  qed
  from lo hi show ?thesis ..
qed

lemma floorSqrt_real: "int (floorSqrt n) = \<lfloor>sqrt (real n)\<rfloor>"
proof -
  let ?f = "floorSqrt n"
  from floorSqrt_bounds [of n] have lo: "?f * ?f \<le> n" and hi: "n < (?f + 1) * (?f + 1)"
    by simp_all
  have "(real ?f)\<^sup>2 \<le> real n" using lo
    by (metis of_nat_le_iff of_nat_mult power2_eq_square)
  then have a: "real ?f \<le> sqrt (real n)" by (simp add: real_le_rsqrt)
  have "real n < (real (?f + 1))\<^sup>2" using hi
    by (metis of_nat_less_iff of_nat_mult power2_eq_square)
  then have b: "sqrt (real n) < real (?f + 1)" by (simp add: real_less_lsqrt)
  have "\<lfloor>sqrt (real n)\<rfloor> = int ?f"
    using a b by (intro floor_unique) simp_all
  then show ?thesis by simp
qed

text \<open>
  The tag is built from lower-case hexadecimal digits, so the comparison with
  \<open>'7FE00010'\<close> never succeeds and the loop never sets the pixel data.
\<close>

lemma hexDigit_not_F: "d < 16 \<Longrightarrow> hexDigit d \<noteq> CHR ''F''"
proof -
  have all: "\<forall>d\<in>set [0 ..< 16]. hexDigit d \<noteq> CHR ''F''" by code_simp
  assume "d < 16"
  then have "d \<in> set [0 ..< 16]" by simp
  with all show ?thesis by blast
qed

lemma pixel_tag_never_matches: "hex4 g @ hex4 e \<noteq> ''7FE00010''"
proof -
  have "hexDigit (g div 256 mod 16) \<noteq> CHR ''F''" by (rule hexDigit_not_F) simp
  then show ?thesis by (simp add: hex4_def)
qed


lemma handleElement_pixelData:
  "tag \<noteq> ''7FE00010'' \<Longrightarrow> handleElement eng buf tag vr len valueOffset st = Some st'
   \<Longrightarrow> pixelData st' = pixelData st"
  by (auto simp: handleElement_def split: if_splits)





lemma readHeaderFixed_tag:
  "readHeaderFixed buf off = Header tag vr len valueOffset \<Longrightarrow> tag \<noteq> ''7FE00010''"
  using pixel_tag_never_matches
  by (auto simp: readHeaderFixed_def Let_def split: option.splits if_splits)

lemma parseStepFixed_pixelData:
  "parseStepFixed eng buf st = r \<Longrightarrow>
   (case r of Break st' \<Rightarrow> pixelData st' = pixelData st
            | Continue st' \<Rightarrow> pixelData st' = pixelData st
            | Caught st' \<Rightarrow> pixelData st' = pixelData st)"
proof (cases "readHeaderFixed buf (offset st)")
  case (HeaderThrows off)
  assume "parseStepFixed eng buf st = r"
  with HeaderThrows show ?thesis by (auto simp: parseStepFixed_def)
next
  case HeaderBreak
  assume "parseStepFixed eng buf st = r"
  with HeaderBreak show ?thesis by (auto simp: parseStepFixed_def)
next
  case (Header tag vr len valueOffset)
  assume r: "parseStepFixed eng buf st = r"
  from Header have t: "tag \<noteq> ''7FE00010''" by (rule readHeaderFixed_tag)
  show ?thesis
  proof (cases "handleElement eng buf tag vr len valueOffset (st\<lparr>offset := valueOffset\<rparr>)")
    case None
    with r Header show ?thesis by (auto simp: parseStepFixed_def)
  next
    case (Some st')
    from handleElement_pixelData [OF t Some] have "pixelData st' = pixelData st" by simp
    with r Header Some show ?thesis by (auto simp: parseStepFixed_def)
  qed
qed

lemma parseLoopFixed_pixelData: "pixelData (parseLoopFixed eng buf st) = pixelData st"
proof (induction eng buf st rule: parseLoopFixed.induct)
  case (1 eng buf st)
  show ?case
  proof (cases "offset st + 8 < length buf")
    case False
    then show ?thesis by (subst parseLoopFixed.simps) simp
  next
    case True
    show ?thesis
    proof (cases "parseStepFixed eng buf st")
      case (Break st')
      with True parseStepFixed_pixelData [OF Break] show ?thesis
        by (subst parseLoopFixed.simps) simp
    next
      case (Continue st')
      with True parseStepFixed_pixelData [OF Continue] "1.IH"(1) [OF True Continue] show ?thesis
        by (subst parseLoopFixed.simps) simp
    next
      case (Caught st')
      show ?thesis
      proof (cases "length buf \<le> offset st' + 16")
        case t: True
        with True Caught parseStepFixed_pixelData [OF Caught] show ?thesis
          by (subst parseLoopFixed.simps) simp
      next
        case f: False
        with True Caught parseStepFixed_pixelData [OF Caught] "1.IH"(2) [OF True Caught f]
        show ?thesis by (subst parseLoopFixed.simps) simp
      qed
    qed
  qed
qed

lemma estimateDimensionsFixed_pixelData: "pixelData (estimateDimensionsFixed st) = pixelData st"
  by (simp add: estimateDimensionsFixed_def Let_def)

lemma parseDicomFixed_no_pixelData: "parseDicomFixed eng buf = Inr d \<Longrightarrow> pixelData d = None"
  by (auto simp: parseDicomFixed_def resultOf_def estimateDimensionsFixed_pixelData parseLoopFixed_pixelData
      initialState_def split: option.splits)

text \<open>
  Claim C7. Neither \<open>parseDicom\<close> raises to its caller, whatever the buffer. When the
  element at the read position declares a length that runs past the end of the buffer,
  dicom-parser.js leaves the loop with the state as it was before the element, and
  dicom-parser-fixed.js goes on decoding at the element's value offset, which lies
  beyond the read position, again with the state unchanged.
\<close>

theorem length_overrun_recovered:
  "(\<exists>d. parseDicom eng buf = Inr d) \<and> (\<exists>d. parseDicomFixed eng buf = Inr d)
   \<and> (\<forall>(st :: parseState) tag vr len valueOffset.
         offset st + 8 < length buf
         \<and> readHeader buf (offset st) = Header tag vr len valueOffset
         \<and> length buf < valueOffset + len
         \<longrightarrow> parseStep eng buf st = Break (st\<lparr>offset := valueOffset\<rparr>)
             \<and> parseLoop eng buf st = st\<lparr>offset := valueOffset\<rparr>)
   \<and> (\<forall>(st :: parseState) tag vr len valueOffset.
         offset st + 8 < length buf
         \<and> readHeaderFixed buf (offset st) = Header tag vr len valueOffset
         \<and> length buf < valueOffset + len
         \<longrightarrow> parseStepFixed eng buf st = Continue (st\<lparr>offset := valueOffset\<rparr>)
             \<and> offset st < valueOffset
             \<and> parseLoopFixed eng buf st = parseLoopFixed eng buf (st\<lparr>offset := valueOffset\<rparr>))"
proof (intro conjI allI impI)
  show "\<exists>d. parseDicom eng buf = Inr d" by (rule parseDicom_returns)
  show "\<exists>d. parseDicomFixed eng buf = Inr d" by (rule parseDicomFixed_returns)
next
  fix st :: parseState and tag vr len valueOffset
  assume a: "offset st + 8 < length buf
         \<and> readHeader buf (offset st) = Header tag vr len valueOffset
         \<and> length buf < valueOffset + len"
  then show "parseStep eng buf st = Break (st\<lparr>offset := valueOffset\<rparr>)"
    by (simp add: parseStep_def)
  from a show "parseLoop eng buf st = st\<lparr>offset := valueOffset\<rparr>"
    using parseLoop_overrun by blast
next
  fix st :: parseState and tag vr len valueOffset
  assume a: "offset st + 8 < length buf
         \<and> readHeaderFixed buf (offset st) = Header tag vr len valueOffset
         \<and> length buf < valueOffset + len"
  then show "parseStepFixed eng buf st = Continue (st\<lparr>offset := valueOffset\<rparr>)"
    by (simp add: parseStepFixed_def)
  from a show "offset st < valueOffset"
    using readHeaderFixed_forward [of buf "offset st" tag vr len valueOffset] by simp
  from a show "parseLoopFixed eng buf st = parseLoopFixed eng buf (st\<lparr>offset := valueOffset\<rparr>)"
    using parseLoopFixed_overrun by blast
qed

theorem length_overrun_recovered_witness:
  "offset (initialState 0) + 8 < length overrunBuffer
   \<and> readHeader overrunBuffer 0 = Header ''00080018'' ''UI'' 10000 8
   \<and> readHeaderFixed overrunBuffer 0 = Header ''00080018'' ''UI'' 10000 8
   \<and> length overrunBuffer - 8 = 50
   \<and> parseLoop exampleEngine overrunBuffer (initialState 0) = (initialState 0)\<lparr>offset := 8\<rparr>
   \<and> parseLoopFixed exampleEngine overrunBuffer (initialState 0)
       = parseLoopFixed exampleEngine overrunBuffer ((initialState 0)\<lparr>offset := 8\<rparr>)
   \<and> parseDicom exampleEngine overrunBuffer
       = Inr \<lparr>pixelData = None, rows = 512, columns = 512, instanceTag = None\<rparr>
   \<and> parseDicomFixed exampleEngine overrunBuffer
       = Inr \<lparr>pixelData = None, rows = 7, columns = 9, instanceTag = None\<rparr>"
proof -
  have len: "length overrunBuffer = 58" by (simp add: overrunBuffer_def)
  have off: "offset (initialState 0) = 0" by (simp add: initialState_def)
  have h1: "readHeader overrunBuffer 0 = Header ''00080018'' ''UI'' 10000 8" by code_simp
  have h2: "readHeaderFixed overrunBuffer 0 = Header ''00080018'' ''UI'' 10000 8" by code_simp
  have r1: "parseDicom exampleEngine overrunBuffer
       = Inr \<lparr>pixelData = None, rows = 512, columns = 512, instanceTag = None\<rparr>" by code_simp
  have r2: "parseDicomFixed exampleEngine overrunBuffer
       = Inr \<lparr>pixelData = None, rows = 7, columns = 9, instanceTag = None\<rparr>" by code_simp
  have p1: "offset (initialState 0) + 8 < length overrunBuffer
         \<and> readHeader overrunBuffer (offset (initialState 0)) = Header ''00080018'' ''UI'' 10000 8
         \<and> length overrunBuffer < 8 + 10000"
    using h1 len off by simp
  have p2: "offset (initialState 0) + 8 < length overrunBuffer
         \<and> readHeaderFixed overrunBuffer (offset (initialState 0)) = Header ''00080018'' ''UI'' 10000 8
         \<and> length overrunBuffer < 8 + 10000"
    using h2 len off by simp
  note inst = length_overrun_recovered [of exampleEngine overrunBuffer]
  from inst [THEN conjunct2, THEN conjunct2, THEN conjunct1, rule_format, OF p1]
  have s: "parseLoop exampleEngine overrunBuffer (initialState 0) = (initialState 0)\<lparr>offset := 8\<rparr>"
    by simp
  from inst [THEN conjunct2, THEN conjunct2, THEN conjunct2, rule_format, OF p2]
  have f: "parseLoopFixed exampleEngine overrunBuffer (initialState 0)
       = parseLoopFixed exampleEngine overrunBuffer ((initialState 0)\<lparr>offset := 8\<rparr>)"
    by simp
  from len off h1 h2 r1 r2 s f show ?thesis by simp
qed

section \<open>Whole files\<close>



text \<open>
  The file of one 16-bit slice of 512 by 512, as dicom-parser-robust.js parses it.
\<close>

lemma chars_OW: "fromCharCode 79 = CHR ''O''" "fromCharCode 87 = CHR ''W''"
  by code_simp+

lemma ct_length: "length (snd ctSliceFile) = 524302"
  by (simp add: ctSliceFile_def)

lemma ct_findPixelData:
  "findPixelData (snd ctSliceFile) = Inr (Some \<lparr>infoOffset = 14, infoLength = 524288\<rparr>)"
proof -
  have "[0 ..< 524290] = 0 # [Suc 0 ..< 524290]"
    by (rule upt_conv_Cons) simp
  then have u: "[0 ..< length (snd ctSliceFile) - 12] = 0 # [Suc 0 ..< 524290]"
    by (simp add: ct_length)
  have g: "getUint16 (snd ctSliceFile) 0 = Some 0x7FE0"
    "getUint16 (snd ctSliceFile) (Suc (Suc 0)) = Some 0x0010"
    by (simp_all add: getUint16_def ctSliceFile_def)
  have p: "pixelDataAt (snd ctSliceFile) 0 = Inr \<lparr>infoOffset = 14, infoLength = 524288\<rparr>"
    by (simp add: pixelDataAt_def Let_def getUint16_def getUint32_def clampLength_def
        ctSliceFile_def chars_OW nth_append)
  show ?thesis
    unfolding findPixelData_def u using g p by simp
qed

lemma dimensionStep_other:
  "getUint16 buf i \<noteq> Some 0x0028 \<Longrightarrow> dimensionStep buf i dims = dims"
  by (cases dims) (simp add: dimensionStep_def)

lemma findImageDimensions_default:
  assumes "\<forall>i < length buf - 8. getUint16 buf i \<noteq> Some 0x0028"
  shows "findImageDimensions buf = (512, 512)"
proof -
  have "n \<le> length buf - 8 \<Longrightarrow> fold (dimensionStep buf) [0 ..< n] d = d" for n d
  proof (induction n)
    case 0
    then show ?case by simp
  next
    case (Suc n)
    then have "getUint16 buf n \<noteq> Some 0x0028" using assms by simp
    with Suc show ?case by (simp add: dimensionStep_other)
  qed
  then show ?thesis by (simp add: findImageDimensions_def)
qed

lemma ct_no_dimension_tag:
  "i < length (snd ctSliceFile) - 8 \<Longrightarrow> getUint16 (snd ctSliceFile) i \<noteq> Some 0x0028"
proof -
  assume i: "i < length (snd ctSliceFile) - 8"
  have low: "\<forall>i\<in>set [0 ..< 14]. getUint16 (snd ctSliceFile) i \<noteq> Some 0x0028"
    by (simp add: getUint16_def ctSliceFile_def nth_append upt_rec [of _ "numeral _"])
  show ?thesis
  proof (cases "i < 14")
    case True
    then have "i \<in> set [0 ..< 14]" by simp
    with low show ?thesis by blast
  next
    case False
    with i show ?thesis
      by (simp add: getUint16_def ctSliceFile_def nth_append)
  qed
qed

lemma ct_findImageDimensions: "findImageDimensions (snd ctSliceFile) = (512, 512)"
  by (rule findImageDimensions_default) (simp add: ct_no_dimension_tag)

lemma words16_replicate: "words16 (replicate (2 * n) b) = replicate n (int (b + 256 * b))"
  by (induction n) simp_all

lemma hasHighValues_ones: "hasHighValues (replicate 524288 1)"
proof -
  have "0 \<in> set [0 ..< (min (length (replicate 524288 (1::nat))) 1000 + 1) div 2]" by simp
  then show ?thesis
    unfolding hasHighValues_def list_ex_iff by (intro bexI [of _ 0]) simp_all
qed

lemma ct_extractPixelData:
  "extractPixelData (snd ctSliceFile) \<lparr>infoOffset = 14, infoLength = 524288\<rparr>
     = \<lparr>kind = Uint16Array, elems = replicate 262144 257\<rparr>"
proof -
  have b: "bufferSlice (snd ctSliceFile) 14 524302 = replicate 524288 1"
    by (simp add: bufferSlice_def ctSliceFile_def)
  have w: "words16 (replicate 524288 1) = replicate 262144 257"
    using words16_replicate [of 262144 1] by simp
  show ?thesis
    using b w hasHighValues_ones by (simp add: extractPixelData_def Let_def)
qed

lemma ct_parse:
  "parseDicomRobust (snd ctSliceFile)
     = Inr \<lparr>pixelData = Some \<lparr>kind = Uint16Array, elems = replicate 262144 257\<rparr>,
            rows = 512, columns = 512, instanceTag = None\<rparr>"
  by (simp add: parseDicomRobust_def Let_def ct_findPixelData ct_findImageDimensions
      ct_extractPixelData inferDimensions_def)

lemma ct_recovered:
  "recoveredSlices (map readRobust [ctSliceFile])
     = [\<lparr>data = \<lparr>kind = Uint16Array, elems = replicate 262144 257\<rparr>,
         sliceRows = 512, sliceColumns = 512, instanceNumber = Some 0, fileName = ''ct.dcm''\<rparr>]"
proof -
  have nm: "fst ctSliceFile = ''ct.dcm''" by (simp add: ctSliceFile_def)
  show ?thesis
    by (simp add: recoveredSlices_def Let_def readRobust_def ct_parse fileSliceRobust_def
        sliceOfFileRobust_def arraySlice0_def nm)
qed

section \<open>The claims about ordering, acceptance and the outcome\<close>







text \<open>
  Claim C6, with the case it misses. \<open>processDicomFolder\<close> signals its fatal error
  exactly when every file is dropped; dicom-parser-robust.js likewise, where a file
  counts as dropped when neither pass yields a slice. With an accepted slice the volume
  is returned, except that a batch with a 16-bit slice whose assembled field has more
  elements than the engine accepts arguments ends in the RangeError of the spread call.
\<close>

theorem normalization_range_error:
  "(processDicomFolder eng files = Inl NoValidDicomFiles
      \<longleftrightarrow> (\<forall>f\<in>set files. fileSlice f = None))
   \<and> (processDicomFolderRobust eng files = Inl NoValidDicomFilesAfterRecovery
      \<longleftrightarrow> (\<forall>f\<in>set files. fileSlice f = None \<and> lastResortSlice 0 f = None))
   \<and> ((\<exists>v. processDicomFolder eng files = Inr v)
      \<longleftrightarrow> (\<exists>f\<in>set files. fileSlice f \<noteq> None)
          \<and> \<not> (is16Bit (orderedSlices eng files)
                \<and> argumentLimit eng < length (assembledField (orderedSlices eng files))))
   \<and> ((\<exists>v. processDicomFolderRobust eng files = Inr v)
      \<longleftrightarrow> (\<exists>f\<in>set files. fileSlice f \<noteq> None \<or> lastResortSlice 0 f \<noteq> None)
          \<and> \<not> (is16BitRobust (orderedSlicesRobust files)
                \<and> argumentLimit eng < length (assembledFieldRobust (orderedSlicesRobust files))))
   \<and> ((\<exists>f\<in>set files. fileSlice f \<noteq> None)
        \<and> is16Bit (orderedSlices eng files)
        \<and> argumentLimit eng < length (assembledField (orderedSlices eng files))
      \<longrightarrow> processDicomFolder eng files = Inl SpreadRangeError)
   \<and> ((\<exists>f\<in>set files. fileSlice f \<noteq> None \<or> lastResortSlice 0 f \<noteq> None)
        \<and> is16BitRobust (orderedSlicesRobust files)
        \<and> argumentLimit eng < length (assembledFieldRobust (orderedSlicesRobust files))
      \<longrightarrow> processDicomFolderRobust eng files = Inl SpreadRangeError)"
proof -
  have a: "collectSlices files [] = [] \<longleftrightarrow> (\<forall>f\<in>set files. fileSlice f = None)"
    using accepted_iff [of files] by auto
  have b: "recoveredSlices files = [] \<longleftrightarrow>
             (\<forall>f\<in>set files. fileSlice f = None \<and> lastResortSlice 0 f = None)"
    by (rule recoveredSlices_Nil_iff)
  have 1: "processDicomFolder eng files = Inl NoValidDicomFiles
      \<longleftrightarrow> (\<forall>f\<in>set files. fileSlice f = None)"
    unfolding a [symmetric] by (simp add: processDicomFolder_outcome)
  have 2: "processDicomFolderRobust eng files = Inl NoValidDicomFilesAfterRecovery
      \<longleftrightarrow> (\<forall>f\<in>set files. fileSlice f = None \<and> lastResortSlice 0 f = None)"
    unfolding b [symmetric] by (simp add: processDicomFolderRobust_outcome)
  have 3: "(\<exists>v. processDicomFolder eng files = Inr v)
      \<longleftrightarrow> collectSlices files [] \<noteq> []
          \<and> \<not> (is16Bit (orderedSlices eng files)
                \<and> argumentLimit eng < length (assembledField (orderedSlices eng files)))"
    by (simp add: processDicomFolder_outcome)
  have 4: "(\<exists>v. processDicomFolderRobust eng files = Inr v)
      \<longleftrightarrow> recoveredSlices files \<noteq> []
          \<and> \<not> (is16BitRobust (orderedSlicesRobust files)
                \<and> argumentLimit eng < length (assembledFieldRobust (orderedSlicesRobust files)))"
    by (simp add: processDicomFolderRobust_outcome)
  have 5: "collectSlices files [] \<noteq> []
        \<and> is16Bit (orderedSlices eng files)
        \<and> argumentLimit eng < length (assembledField (orderedSlices eng files))
      \<longrightarrow> processDicomFolder eng files = Inl SpreadRangeError"
    by (simp add: processDicomFolder_outcome)
  have 6: "recoveredSlices files \<noteq> []
        \<and> is16BitRobust (orderedSlicesRobust files)
        \<and> argumentLimit eng < length (assembledFieldRobust (orderedSlicesRobust files))
      \<longrightarrow> processDicomFolderRobust eng files = Inl SpreadRangeError"
    by (simp add: processDicomFolderRobust_outcome)
  have a': "collectSlices files [] \<noteq> [] \<longleftrightarrow> (\<exists>f\<in>set files. fileSlice f \<noteq> None)"
    using a by auto
  have b': "recoveredSlices files \<noteq> [] \<longleftrightarrow>
             (\<exists>f\<in>set files. fileSlice f \<noteq> None \<or> lastResortSlice 0 f \<noteq> None)"
    using b by auto
  from 1 2 3 4 5 6 show ?thesis unfolding a' b' by blast
qed

theorem normalization_range_error_witness:
  "processDicomFolder exampleEngine [droppedFile, droppedFile] = Inl NoValidDicomFiles
   \<and> processDicomFolderRobust exampleEngine [droppedFile, droppedFile]
       = Inl NoValidDicomFilesAfterRecovery
   \<and> (\<exists>v. processDicomFolder exampleEngine
             [droppedFile, scenarioFile ''a.dcm'' None 2 2 Uint8Array [1, 2, 3, 4]] = Inr v)
   \<and> map (\<lambda>s. (kind (data s), sliceRows s, sliceColumns s, length (elems (data s))))
        (recoveredSlices (map readRobust [ctSliceFile])) = [(Uint16Array, 512, 512, 262144)]
   \<and> argumentLimit exampleEngine < 262144
   \<and> processDicomFolderRobustOn exampleEngine [ctSliceFile] = Inl SpreadRangeError"
proof -
  let ?ok = "[droppedFile, scenarioFile ''a.dcm'' None 2 2 Uint8Array [1, 2, 3, 4]]"
  let ?ct = "map readRobust [ctSliceFile]"
  have d: "fileSlice droppedFile = None" "lastResortSlice 0 droppedFile = None"
    by (simp_all add: fileSlice_def sliceOfFile_def droppedFile_def lastResortSlice_def commonDims_def)
  have k: "fileSlice (scenarioFile ''a.dcm'' None 2 2 Uint8Array [1, 2, 3, 4]) \<noteq> None"
    by (simp add: fileSlice_scenario)
  have e: "\<not> is16Bit (orderedSlices exampleEngine ?ok)"
    by (simp add: orderedSlices_def d fileSlice_scenario sortBy_def is16Bit_def)
  have lim: "argumentLimit exampleEngine < 262144"
    by (simp add: exampleEngine_def)
  have rec: "map (\<lambda>s. (kind (data s), sliceRows s, sliceColumns s, length (elems (data s))))
        (recoveredSlices ?ct) = [(Uint16Array, 512, 512, 262144)]"
    using ct_recovered by simp
  have ord: "orderedSlicesRobust ?ct = recoveredSlices ?ct"
    by (rule orderedSlicesRobust_enumeration)
  have acc: "\<exists>f\<in>set ?ct. fileSlice f \<noteq> None \<or> lastResortSlice 0 f \<noteq> None"
    using recoveredSlices_Nil_iff [of ?ct] ct_recovered by simp
  have wide: "is16BitRobust (orderedSlicesRobust ?ct)"
    unfolding ord using ct_recovered by (simp add: is16BitRobust_def)
  have len: "argumentLimit exampleEngine < length (assembledFieldRobust (orderedSlicesRobust ?ct))"
    unfolding ord length_assembledFieldRobust using lim ct_recovered by simp
  note empty = normalization_range_error [of exampleEngine "[droppedFile, droppedFile]"]
  note ok = normalization_range_error [of exampleEngine ?ok]
  note ct = normalization_range_error [of exampleEngine ?ct]
  have 1: "processDicomFolder exampleEngine [droppedFile, droppedFile] = Inl NoValidDicomFiles"
    using empty d by simp
  have 2: "processDicomFolderRobust exampleEngine [droppedFile, droppedFile]
       = Inl NoValidDicomFilesAfterRecovery"
    using empty d by simp
  have 3: "\<exists>v. processDicomFolder exampleEngine ?ok = Inr v"
    using ok k e by simp
  have 4: "processDicomFolderRobustOn exampleEngine [ctSliceFile] = Inl SpreadRangeError"
    unfolding processDicomFolderRobustOn_def using ct acc wide len by blast
  from 1 2 3 rec lim 4 show ?thesis by simp
qed

text \<open>
  Claim C10. Every slice record stored by the first pass of dicom-parser.js, and every
  record stored by either pass of dicom-parser-robust.js, holds exactly rows * columns
  samples. In the first pass of either file, longer pixel data is cut to its first
  rows * columns samples; shorter data is accepted only above 100 samples and is stored
  as its samples, converted to 8-bit elements (which leaves 8-bit samples as they are),
  followed by zeros up to rows * columns. The last-resort pass stores the first
  rows * columns bytes of the file.
\<close>

theorem stored_record_length:
  "(\<forall>s\<in>set (collectSlices files []). length (elems (data s)) = sliceRows s * sliceColumns s)
   \<and> (\<forall>s\<in>set (recoveredSlices files). length (elems (data s)) = sliceRows s * sliceColumns s)
   \<and> (\<forall>f\<in>set files. \<forall>n s d px.
         (fileSlice f = Some s \<or> fileSliceRobust n f = Some s)
         \<and> parsed f = Some d \<and> pixelData d = Some px \<longrightarrow>
           sliceRows s = rows d \<and> sliceColumns s = columns d
           \<and> (rows d * columns d \<le> length (elems px) \<longrightarrow>
                data s = \<lparr>kind = kind px, elems = take (rows d * columns d) (elems px)\<rparr>)
           \<and> (length (elems px) < rows d * columns d \<longrightarrow>
                100 < length (elems px)
                \<and> length (elems (data s)) = rows d * columns d
                \<and> take (length (elems px)) (elems (data s))
                    = map (toElem Uint8Array) (elems px)
                \<and> drop (length (elems px)) (elems (data s))
                    = replicate (rows d * columns d - length (elems px)) 0
                \<and> ((\<forall>x\<in>set (elems px). 0 \<le> x \<and> x < 256) \<longrightarrow>
                     elems (data s)
                       = elems px @ replicate (rows d * columns d - length (elems px)) 0)))
   \<and> (\<forall>f\<in>set files. \<forall>n s bytes.
         lastResortSlice n f = Some s \<and> contents f = Some bytes \<longrightarrow>
           sliceRows s * sliceColumns s \<le> length bytes
           \<and> data s = \<lparr>kind = Uint8Array,
                       elems = map int (take (sliceRows s * sliceColumns s) bytes)\<rparr>)"
proof (intro conjI ballI allI impI)
  fix s assume "s \<in> set (collectSlices files [])"
  then show "length (elems (data s)) = sliceRows s * sliceColumns s"
    using collectSlices_length by blast
next
  fix s assume "s \<in> set (recoveredSlices files)"
  then show "length (elems (data s)) = sliceRows s * sliceColumns s"
    using recoveredSlices_length by blast
next
  fix f n s d px
  assume a: "(fileSlice f = Some s \<or> fileSliceRobust n f = Some s)
         \<and> parsed f = Some d \<and> pixelData d = Some px"
  then have st: "fileSlice f = Some s \<or> fileSliceRobust n f = Some s"
    and p: "parsed f = Some d" "pixelData d = Some px"
    by simp_all
  note all = stored_record [OF st p]
  show "sliceRows s = rows d" "sliceColumns s = columns d" using all by simp_all
  show "data s = \<lparr>kind = kind px, elems = take (rows d * columns d) (elems px)\<rparr>"
    if "rows d * columns d \<le> length (elems px)" using all that by simp
  show "100 < length (elems px)" "length (elems (data s)) = rows d * columns d"
    "take (length (elems px)) (elems (data s)) = map (toElem Uint8Array) (elems px)"
    "drop (length (elems px)) (elems (data s))
                    = replicate (rows d * columns d - length (elems px)) 0"
    if "length (elems px) < rows d * columns d" using all that by simp_all
  show "elems (data s) = elems px @ replicate (rows d * columns d - length (elems px)) 0"
    if "length (elems px) < rows d * columns d" "\<forall>x\<in>set (elems px). 0 \<le> x \<and> x < 256"
    using all that map_toElem_Uint8_id [of "elems px"] by simp
next
  fix f n s bytes
  assume "lastResortSlice n f = Some s \<and> contents f = Some bytes"
  then have l: "lastResortSlice n f = Some s" and c: "contents f = Some bytes" by simp_all
  from lastResortSlice_data [OF l c]
  show "sliceRows s * sliceColumns s \<le> length bytes"
    "data s = \<lparr>kind = Uint8Array,
                elems = map int (take (sliceRows s * sliceColumns s) bytes)\<rparr>"
    by simp_all
qed

theorem stored_record_length_witness:
  "collectSlices
     [scenarioFile ''t'' None 2 2 Uint8Array [1, 2, 3, 4, 5],
      scenarioFile ''p'' None 11 11 Uint8Array (replicate 101 7)] []
   = [\<lparr>data = \<lparr>kind = Uint8Array, elems = [1, 2, 3, 4]\<rparr>, sliceRows = 2, sliceColumns = 2,
        instanceNumber = Some 0, fileName = ''t''\<rparr>,
      \<lparr>data = \<lparr>kind = Uint8Array, elems = replicate 101 7 @ replicate 20 0\<rparr>,
        sliceRows = 11, sliceColumns = 11, instanceNumber = Some 0, fileName = ''p''\<rparr>]
   \<and> recoveredSlices
     [scenarioFile ''t'' None 2 2 Uint8Array [1, 2, 3, 4, 5],
      scenarioFile ''p'' None 11 11 Uint8Array (replicate 101 7)]
   = [\<lparr>data = \<lparr>kind = Uint8Array, elems = [1, 2, 3, 4]\<rparr>, sliceRows = 2, sliceColumns = 2,
        instanceNumber = Some 0, fileName = ''t''\<rparr>,
      \<lparr>data = \<lparr>kind = Uint8Array, elems = replicate 101 7 @ replicate 20 0\<rparr>,
        sliceRows = 11, sliceColumns = 11, instanceNumber = Some 1, fileName = ''p''\<rparr>]
   \<and> recoveredSlices [rawFile]
   = [\<lparr>data = \<lparr>kind = Uint8Array, elems = replicate 65536 5\<rparr>,
        sliceRows = 256, sliceColumns = 256, instanceNumber = Some 0, fileName = ''raw.bin''\<rparr>]
   \<and> length (replicate 101 (7 :: int) @ replicate 20 0) = 11 * 11
   \<and> length [1, 2, 3, 4 :: int] = 2 * 2
   \<and> length (replicate 65536 (5 :: int)) = 256 * 256"
proof -
  let ?t = "scenarioFile ''t'' None 2 2 Uint8Array [1, 2, 3, 4, 5]"
  let ?p = "scenarioFile ''p'' None 11 11 Uint8Array (replicate 101 7)"
  let ?files = "[?t, ?p]"
  let ?dat0 = "\<lparr>kind = Uint8Array, elems = [1, 2, 3, 4]\<rparr>"
  let ?dat1 = "\<lparr>kind = Uint8Array, elems = replicate 101 7 @ replicate 20 0\<rparr>"
  let ?s0 = "\<lparr>data = ?dat0, sliceRows = 2, sliceColumns = 2,
        instanceNumber = Some 0, fileName = ''t''\<rparr>"
  let ?s1 = "\<lparr>data = ?dat1,
        sliceRows = 11, sliceColumns = 11, instanceNumber = Some 0, fileName = ''p''\<rparr>"
  let ?r1 = "\<lparr>data = ?dat1,
        sliceRows = 11, sliceColumns = 11, instanceNumber = Some 1, fileName = ''p''\<rparr>"
  let ?raw = "\<lparr>data = \<lparr>kind = Uint8Array, elems = replicate 65536 5\<rparr>,
        sliceRows = 256, sliceColumns = 256, instanceNumber = Some 0, fileName = ''raw.bin''\<rparr>"
  have c: "collectSlices ?files [] = [?s0, ?s1]"
    by (simp add: fileSlice_scenario orZero_def toElem_def)
  have r: "recoveredSlices ?files = [?s0, ?r1]"
    by (simp add: recoveredSlices_def Let_def fileSliceRobust_fileSlice fileSlice_scenario
        orZero_def toElem_def)
  have w: "recoveredSlices [rawFile] = [?raw]"
    by (simp add: recoveredSlices_def Let_def fileSliceRobust_def lastResortSlice_def
        rawFile_def commonDims_def)
  note inst = stored_record_length [of ?files]
  note raw = stored_record_length [of "[rawFile]"]
  from inst
  have "\<forall>s\<in>set (collectSlices ?files []). length (elems (data s)) = sliceRows s * sliceColumns s"
    by blast
  then have l0: "length (elems (data ?s0)) = sliceRows ?s0 * sliceColumns ?s0"
    and l1: "length (elems (data ?s1)) = sliceRows ?s1 * sliceColumns ?s1"
    unfolding c by simp_all
  from raw
  have "\<forall>s\<in>set (recoveredSlices [rawFile]). length (elems (data s)) = sliceRows s * sliceColumns s"
    by blast
  then have l2: "length (elems (data ?raw)) = sliceRows ?raw * sliceColumns ?raw"
    unfolding w by simp
  from c r w l0 l1 l2 show ?thesis by simp
qed

section \<open>Properties of the fragment shader\<close>










lemma sampleVolume_const: "sampleVolume u (\<lambda>uv. c) pos = c"
  by (simp add: sampleVolume_def Let_def mix_def algebra_simps)

lemma example_fields:
  "u_threshold exampleUniforms = 100" "u_windowLevel exampleUniforms = 128"
  "u_windowWidth exampleUniforms = 256" "u_opacity exampleUniforms = 0.8"
  by (simp_all add: exampleUniforms_def)

lemma march_unfold:
  "0 < n \<Longrightarrow>
   march n u tex step st =
     (if accumulatedAlpha st \<ge> 0.95 \<or> steps st > 200 then st
      else if outsideVolume (currentPosition st) then st
      else march (n - 1) u tex step (marchStep u tex step st))"
  by (cases n) simp_all



lemma normalizedDensityOf_formula:
  "normalizedDensityOf u density =
     clampReal ((density - (u_windowLevel u - u_windowWidth u / 2)) / u_windowWidth u) 0 1"
  by (simp add: normalizedDensityOf_def Let_def)

lemma marchStep_accumulators:
  "accumulatedColor (marchStep u tex step st)
     = accumulatedColor (composite u (sampleVolume u tex (currentPosition st)) st)
   \<and> accumulatedAlpha (marchStep u tex step st)
     = accumulatedAlpha (composite u (sampleVolume u tex (currentPosition st)) st)"
  by (simp add: marchStep_def Let_def)

lemma composite_discard:
  "normalizedDensityOf u density \<le> u_threshold u / 255 \<Longrightarrow> composite u density st = st"
  by (simp add: composite_def Let_def)

lemma composite_accumulate:
  assumes "normalizedDensityOf u density > u_threshold u / 255"
  shows "accumulatedAlpha (composite u density st)
           = accumulatedAlpha st
             + normalizedDensityOf u density * u_opacity u * 0.05 * (1 - accumulatedAlpha st)"
    and "vx (accumulatedColor (composite u density st))
           = vx (accumulatedColor st)
             + normalizedDensityOf u density
               * (normalizedDensityOf u density * u_opacity u * 0.05) * (1 - accumulatedAlpha st)"
  using assms by (simp_all add: composite_def Let_def vadd_def vscale_def)

text \<open>
  Claim C9. At a marching step the windowed intensity of the sample is
  clamp((sample - (windowLevel - windowWidth / 2)) / windowWidth, 0, 1). When it is at
  most threshold / 255 the step leaves the accumulated colour and opacity as they were;
  when it is greater the step composites it front to back with
  alpha = intensity * opacity * 0.05. With threshold 100, window level 128 and window
  width 256 a sample of 50 has intensity 50 / 256, which is at most 100 / 255, and is
  discarded.
\<close>

theorem window_and_threshold:
  "(let density = sampleVolume u tex (currentPosition st);
        normalizedIntensity =
          clampReal ((density - (u_windowLevel u - u_windowWidth u / 2)) / u_windowWidth u) 0 1
    in normalizedDensityOf u density = normalizedIntensity
     \<and> (normalizedIntensity \<le> u_threshold u / 255 \<longrightarrow>
          accumulatedColor (marchStep u tex step st) = accumulatedColor st
          \<and> accumulatedAlpha (marchStep u tex step st) = accumulatedAlpha st)
     \<and> (normalizedIntensity > u_threshold u / 255 \<longrightarrow>
          accumulatedAlpha (marchStep u tex step st)
            = accumulatedAlpha st
              + normalizedIntensity * u_opacity u * 0.05 * (1 - accumulatedAlpha st)
          \<and> vx (accumulatedColor (marchStep u tex step st))
            = vx (accumulatedColor st)
              + normalizedIntensity * (normalizedIntensity * u_opacity u * 0.05)
                * (1 - accumulatedAlpha st))
     \<and> (u_threshold u = 100 \<and> u_windowLevel u = 128 \<and> u_windowWidth u = 256
          \<and> density = 50 \<longrightarrow>
          normalizedIntensity = 50 / 256
          \<and> normalizedIntensity \<le> u_threshold u / 255
          \<and> accumulatedColor (marchStep u tex step st) = accumulatedColor st
          \<and> accumulatedAlpha (marchStep u tex step st) = accumulatedAlpha st))"
proof -
  define density where "density = sampleVolume u tex (currentPosition st)"
  define nd where "nd = clampReal ((density - (u_windowLevel u - u_windowWidth u / 2)) / u_windowWidth u) 0 1"
  have f: "normalizedDensityOf u density = nd"
    by (simp add: nd_def normalizedDensityOf_formula)
  have acc: "accumulatedColor (marchStep u tex step st) = accumulatedColor (composite u density st)"
    "accumulatedAlpha (marchStep u tex step st) = accumulatedAlpha (composite u density st)"
    using marchStep_accumulators [of u tex step st] by (simp_all add: density_def)
  have lo: "accumulatedColor (marchStep u tex step st) = accumulatedColor st
          \<and> accumulatedAlpha (marchStep u tex step st) = accumulatedAlpha st"
    if "nd \<le> u_threshold u / 255"
    using that composite_discard [of u density st] by (simp add: acc f)
  have hi: "accumulatedAlpha (marchStep u tex step st)
            = accumulatedAlpha st + nd * u_opacity u * 0.05 * (1 - accumulatedAlpha st)
          \<and> vx (accumulatedColor (marchStep u tex step st))
            = vx (accumulatedColor st) + nd * (nd * u_opacity u * 0.05) * (1 - accumulatedAlpha st)"
    if "nd > u_threshold u / 255"
    using that composite_accumulate [of u density st] by (simp add: acc f)
  have ex: "nd = 50 / 256 \<and> nd \<le> u_threshold u / 255"
    if "u_threshold u = 100 \<and> u_windowLevel u = 128 \<and> u_windowWidth u = 256 \<and> density = 50"
    using that by (simp add: nd_def clampReal_def)
  show ?thesis
    unfolding Let_def density_def [symmetric] nd_def [symmetric]
    using f lo hi ex by blast
qed

theorem window_and_threshold_witness:
  "u_threshold exampleUniforms = 100 \<and> u_windowLevel exampleUniforms = 128
   \<and> u_windowWidth exampleUniforms = 256
   \<and> sampleVolume exampleUniforms (\<lambda>uv. 50) (currentPosition exampleStart) = 50
   \<and> normalizedDensityOf exampleUniforms 50 = 50 / 256
   \<and> accumulatedAlpha (marchStep exampleUniforms (\<lambda>uv. 50) (vscale exampleRay 0.005) exampleStart) = 0
   \<and> normalizedDensityOf exampleUniforms 200 = 200 / 256
   \<and> accumulatedAlpha (marchStep exampleUniforms (\<lambda>uv. 200) (vscale exampleRay 0.005) exampleStart)
       = 1 / 32"
proof -
  let ?step = "vscale exampleRay 0.005"
  have s50: "sampleVolume exampleUniforms (\<lambda>uv. 50) (currentPosition exampleStart) = 50"
    by (rule sampleVolume_const)
  have s200: "sampleVolume exampleUniforms (\<lambda>uv. 200) (currentPosition exampleStart) = 200"
    by (rule sampleVolume_const)
  have a0: "accumulatedAlpha exampleStart = 0" by (simp add: exampleStart_def)
  from window_and_threshold [of exampleUniforms "\<lambda>uv. 50" exampleStart ?step]
  have lo: "normalizedDensityOf exampleUniforms 50 = 50 / 256
      \<and> accumulatedAlpha (marchStep exampleUniforms (\<lambda>uv. 50) ?step exampleStart) = 0"
    unfolding Let_def s50 using example_fields a0 by simp
  have n200: "clampReal ((200 - (u_windowLevel exampleUniforms - u_windowWidth exampleUniforms / 2))
                  / u_windowWidth exampleUniforms) 0 1 = 200 / 256"
    by (simp add: example_fields clampReal_def)
  have gt: "u_threshold exampleUniforms / 255 < 200 / 256" by (simp add: example_fields)
  from window_and_threshold [of exampleUniforms "\<lambda>uv. 200" exampleStart ?step]
  have hi: "normalizedDensityOf exampleUniforms 200 = 200 / 256
      \<and> accumulatedAlpha (marchStep exampleUniforms (\<lambda>uv. 200) ?step exampleStart) = 1 / 32"
    unfolding Let_def s200 n200 using gt a0 by (simp add: example_fields)
  from lo hi s50 example_fields show ?thesis by simp
qed

end
